theory Spec2Isabelle
  imports Main "HOL-Library.Sublist"
begin

section \<open>The bulk search/replace helper \<^verbatim>\<open>tools/mojo_bulk_replace.py\<close>\<close>

text \<open>
  The program loads a TOML configuration (settings and an ordered list of replacement
  rules), walks the configured directories, applies the rules to the text of every file
  with an included extension, reports the occurrence counts and, in apply mode, writes
  the changed text back.

  Modelling decisions:
  \<^item> Python \<^verbatim>\<open>str\<close> is a \<open>string\<close>; one \<open>char\<close> stands for one code point. Nothing
    below depends on the size of the alphabet.
  \<^item> Occurrence counts are natural numbers (\<^verbatim>\<open>str.count\<close> never returns a negative
    number and Python integers do not overflow).
  \<^item> A Python \<^verbatim>\<open>dict\<close> keeps its keys in insertion order and the program iterates over
    \<^verbatim>\<open>items()\<close>, so a dictionary is an association list with distinct keys.
  \<^item> An exception that the program does not catch ends the run; it is a value of
    \<open>error\<close>, returned together with the state reached when it was raised.
  \<^item> The file system, \<^verbatim>\<open>pathlib\<close>, \<^verbatim>\<open>os.walk\<close> and \<^verbatim>\<open>tomllib\<close> are library code; they are
    the fields of the record \<open>env\<close>. File contents are the one part of the file
    system the program changes; they are threaded through the run as a map from a path
    to the decoded characters stored in the file. \<^verbatim>\<open>read_text\<close> and \<^verbatim>\<open>write_text\<close> open
    the file in text mode with \<^verbatim>\<open>newline=None\<close>, so reading turns every CR LF and every
    CR into LF, and writing turns every LF into the line separator of the platform.
\<close>

subsection \<open>Data model\<close>

type_synonym path = string

record Replacement =
  name :: string
  search :: string
  replace :: string

record Settings =
  include_extensions :: "string list"
  directories :: "string list"

text \<open>
  The parsed command line (\<^verbatim>\<open>args = parser.parse_args()\<close>). Both flags are
  \<^verbatim>\<open>store_true\<close> options without a mutually exclusive group, so \<^verbatim>\<open>argparse\<close> itself
  accepts every combination of them. The second flag is \<^verbatim>\<open>args.apply\<close> in the source.
\<close>

record Args =
  config :: path
  dry_run :: bool
  apply_arg :: bool

text \<open>
  The document \<^verbatim>\<open>tomllib.loads\<close> returns, restricted to the keys the program reads and
  to the types of the documented schema. \<open>None\<close> is an absent key.
\<close>

record toml_item =
  item_name :: "string option"
  item_search :: "string option"
  item_replace :: "string option"

record toml_settings =
  tbl_include_extensions :: "string list option"
  tbl_directories :: "string list option"

record toml_doc =
  doc_settings :: "toml_settings option"
  doc_replacements :: "toml_item list option"

type_synonym dict = "(string \<times> nat) list"

datatype error =
    UsageError
  | SystemExit string
  | ConfigLoadError path
  | ReadError path
  | WriteError path
  | ValueError path
  | KeyError string

text \<open>
  The exit status of the process: \<^verbatim>\<open>parser.error\<close> prints the usage message and exits
  with status 2; \<^verbatim>\<open>SystemExit\<close> with a message and every uncaught exception exit with
  status 1.
\<close>

fun exit_status :: "error option \<Rightarrow> nat" where
  "exit_status None = 0"
| "exit_status (Some UsageError) = 2"
| "exit_status (Some _) = 1"

text \<open>The lines the program prints, without their layout.\<close>

datatype out_line =
    FileHeader path
  | FileCount string nat
  | SummaryHeader
  | SummaryCount string nat

text \<open>The calls that reach the file system, in the order the program makes them.\<close>

datatype event =
    LoadConfig path
  | IsDir path
  | Walk path
  | ProcessFile path "(string \<times> dict) option"
  | Reread path
  | Write path string

datatype node = Directory | RegularFile

record env =
  cwd :: path
  joinpath :: "path \<Rightarrow> string \<Rightarrow> path"
  relative_to :: "path \<Rightarrow> path \<Rightarrow> path option"
  read_toml :: "path \<Rightarrow> toml_doc option"
  node_at :: "path \<Rightarrow> node option"
  walk :: "path \<Rightarrow> (path \<times> string list) list"
  can_write :: "path \<Rightarrow> bool"
  linesep :: string

record run_state =
  files :: "path \<rightharpoonup> string"
  stdout :: "out_line list"
  total_counts :: dict
  trace :: "event list"

subsection \<open>The string methods \<^verbatim>\<open>count\<close>, \<^verbatim>\<open>replace\<close>, \<^verbatim>\<open>rfind\<close> and \<^verbatim>\<open>lstrip\<close>\<close>

text \<open>
  \<^verbatim>\<open>s.count(sub)\<close> scans \<open>s\<close> from the left; at a match it counts one and continues
  behind the match. For the empty \<open>sub\<close> it returns \<^verbatim>\<open>len(s) + 1\<close>.
\<close>

fun count_scan :: "string \<Rightarrow> string \<Rightarrow> nat" where
  "count_scan sub [] = 0"
| "count_scan sub (c # cs) =
     (if sub \<noteq> [] \<and> prefix sub (c # cs)
      then Suc (count_scan sub (drop (length sub) (c # cs)))
      else count_scan sub cs)"

definition str_count :: "string \<Rightarrow> string \<Rightarrow> nat" where
  "str_count s sub = (if sub = [] then length s + 1 else count_scan sub s)"

text \<open>
  \<^verbatim>\<open>s.replace(old, new)\<close> scans the same way and puts \<open>new\<close> in the place of every
  match. For the empty \<open>old\<close> it puts \<open>new\<close> in front of every character and at the end.
\<close>

fun replace_scan :: "string \<Rightarrow> string \<Rightarrow> string \<Rightarrow> string" where
  "replace_scan old new [] = []"
| "replace_scan old new (c # cs) =
     (if old \<noteq> [] \<and> prefix old (c # cs)
      then new @ replace_scan old new (drop (length old) (c # cs))
      else c # replace_scan old new cs)"

definition str_replace :: "string \<Rightarrow> string \<Rightarrow> string \<Rightarrow> string" where
  "str_replace s old new =
     (if old = [] then new @ concat (map (\<lambda>c. c # new) s) else replace_scan old new s)"

text \<open>\<^verbatim>\<open>s.rfind(c)\<close>: the highest index of \<open>c\<close> in \<open>s\<close>, or \<open>-1\<close>.\<close>

fun rfind_from :: "string \<Rightarrow> char \<Rightarrow> int \<Rightarrow> int \<Rightarrow> int" where
  "rfind_from [] c i best = best"
| "rfind_from (x # xs) c i best = rfind_from xs c (i + 1) (if x = c then i else best)"

definition rfind :: "string \<Rightarrow> char \<Rightarrow> int" where
  "rfind s c = rfind_from s c 0 (- 1)"

definition lstrip :: "string \<Rightarrow> char \<Rightarrow> string" where
  "lstrip s c = dropWhile (\<lambda>x. x = c) s"

text \<open>
  \<^verbatim>\<open>Path(fname).suffix\<close> for a bare file name, as \<^verbatim>\<open>pathlib\<close> of Python 3.11 to 3.13
  computes it: the name from its last dot on, when that dot is neither the first nor the
  last character.
\<close>

definition path_suffix :: "string \<Rightarrow> string" where
  "path_suffix fname =
     (let i = rfind fname CHR ''.''
      in if 0 < i \<and> i < int (length fname) - 1 then drop (nat i) fname else [])"

subsection \<open>\<^verbatim>\<open>Path.read_text\<close> and \<^verbatim>\<open>Path.write_text\<close>\<close>

text \<open>
  Reading in text mode with universal newlines: the line endings CR LF and CR come back
  as LF.
\<close>

fun universal_newlines :: "string \<Rightarrow> string" where
  "universal_newlines [] = []"
| "universal_newlines [c] = [if c = CHR 0x0D then CHR 0x0A else c]"
| "universal_newlines (c # d # cs) =
     (if c = CHR 0x0D \<and> d = CHR 0x0A then CHR 0x0A # universal_newlines cs
      else (if c = CHR 0x0D then CHR 0x0A else c) # universal_newlines (d # cs))"

text \<open>Writing in text mode: every LF goes to the file as \<^verbatim>\<open>os.linesep\<close>.\<close>

definition native_newlines :: "env \<Rightarrow> string \<Rightarrow> string" where
  "native_newlines e s = concat (map (\<lambda>c. if c = CHR 0x0A then linesep e else [c]) s)"

text \<open>
  \<^verbatim>\<open>path.read_text(encoding="utf-8")\<close>: \<open>None\<close> when the file cannot be opened or
  decoded, which raises in the program.
\<close>

definition read_text :: "(path \<rightharpoonup> string) \<Rightarrow> path \<Rightarrow> string option" where
  "read_text fs p = (case fs p of None \<Rightarrow> None | Some raw \<Rightarrow> Some (universal_newlines raw))"

text \<open>\<^verbatim>\<open>path.write_text(data, encoding="utf-8")\<close> on a file that can be written.\<close>

definition write_text :: "env \<Rightarrow> (path \<rightharpoonup> string) \<Rightarrow> path \<Rightarrow> string \<Rightarrow> (path \<rightharpoonup> string)" where
  "write_text e fs p data = fs(p \<mapsto> native_newlines e data)"

subsection \<open>Dictionaries\<close>

text \<open>\<^verbatim>\<open>d[k] = v\<close>: an existing key keeps its place, a new key goes to the end.\<close>

fun dict_set :: "string \<Rightarrow> nat \<Rightarrow> dict \<Rightarrow> dict" where
  "dict_set k v [] = [(k, v)]"
| "dict_set k v ((k', v') # d) =
     (if k = k' then (k, v) # d else (k', v') # dict_set k v d)"

definition dict_get :: "dict \<Rightarrow> string \<Rightarrow> nat option" where
  "dict_get d k = map_of d k"

subsection \<open>\<^verbatim>\<open>load_config\<close>\<close>

definition load_item :: "toml_item \<Rightarrow> Replacement" where
  "load_item item =
     \<lparr>name = (case item_name item of None \<Rightarrow> ''unnamed'' | Some s \<Rightarrow> s),
      search = (case item_search item of None \<Rightarrow> [] | Some s \<Rightarrow> s),
      replace = (case item_replace item of None \<Rightarrow> [] | Some s \<Rightarrow> s)\<rparr>"

definition load_doc :: "toml_doc \<Rightarrow> Settings \<times> Replacement list" where
  "load_doc data =
     (let settings_tbl =
            (case doc_settings data of
               None \<Rightarrow> \<lparr>tbl_include_extensions = None, tbl_directories = None\<rparr>
             | Some t \<Rightarrow> t);
          settings =
            \<lparr>include_extensions =
               (case tbl_include_extensions settings_tbl of None \<Rightarrow> [''mojo''] | Some l \<Rightarrow> l),
             directories =
               (case tbl_directories settings_tbl of None \<Rightarrow> [] | Some l \<Rightarrow> l)\<rparr>;
          replacements =
            map load_item (case doc_replacements data of None \<Rightarrow> [] | Some l \<Rightarrow> l)
      in (settings, replacements))"

definition load_config :: "env \<Rightarrow> path \<Rightarrow> error + Settings \<times> Replacement list" where
  "load_config e p =
     (case read_toml e p of
        None \<Rightarrow> Inl (ConfigLoadError p)
      | Some data \<Rightarrow> Inr (load_doc data))"

subsection \<open>\<^verbatim>\<open>process_file\<close>\<close>

text \<open>One iteration of the loop over the rules (lines 74 to 78).\<close>

definition rule_step :: "Replacement \<Rightarrow> string \<times> dict \<Rightarrow> string \<times> dict" where
  "rule_step repl = (\<lambda>(new_text, counts).
     let count_before = str_count new_text (search repl);
         new_text' =
           (if count_before \<noteq> 0 then str_replace new_text (search repl) (replace repl)
            else new_text)
     in (new_text', dict_set (name repl) count_before counts))"

fun rule_loop :: "Replacement list \<Rightarrow> string \<times> dict \<Rightarrow> string \<times> dict" where
  "rule_loop [] st = st"
| "rule_loop (repl # rest) st = rule_loop rest (rule_step repl st)"

definition process_file ::
  "(path \<rightharpoonup> string) \<Rightarrow> path \<Rightarrow> Replacement list \<Rightarrow> error + string \<times> dict" where
  "process_file fs p replacements =
     (case read_text fs p of
        None \<Rightarrow> Inl (ReadError p)
      | Some text \<Rightarrow> Inr (rule_loop replacements (text, [])))"

subsection \<open>\<^verbatim>\<open>main\<close>\<close>

text \<open>
  A \<^verbatim>\<open>for\<close> loop whose body may raise: the loop stops at the first error and hands back
  the state reached.
\<close>

fun for_each :: "('a \<Rightarrow> 's \<Rightarrow> 's \<times> error option) \<Rightarrow> 'a list \<Rightarrow> 's \<Rightarrow> 's \<times> error option" where
  "for_each body [] st = (st, None)"
| "for_each body (x # xs) st =
     (case body x st of
        (st', None) \<Rightarrow> for_each body xs st'
      | (st', Some e) \<Rightarrow> (st', Some e))"

definition log_event :: "event \<Rightarrow> run_state \<Rightarrow> run_state" where
  "log_event ev st = st\<lparr>trace := trace st @ [ev]\<rparr>"

definition print :: "out_line list \<Rightarrow> run_state \<Rightarrow> run_state" where
  "print ls st = st\<lparr>stdout := stdout st @ ls\<rparr>"

definition is_dir :: "env \<Rightarrow> path \<Rightarrow> bool" where
  "is_dir e p = (node_at e p = Some Directory)"

text \<open>\<^verbatim>\<open>total_counts = {r.name: 0 for r in replacements}\<close> (line 100).\<close>

fun init_totals :: "Replacement list \<Rightarrow> dict \<Rightarrow> dict" where
  "init_totals [] d = d"
| "init_totals (r # rs) d = init_totals rs (dict_set (name r) 0 d)"

text \<open>
  \<^verbatim>\<open>for name, c in counts.items(): total_counts[name] += c\<close> (lines 121 and 122). Reading
  a key that \<open>total_counts\<close> does not hold raises \<^verbatim>\<open>KeyError\<close>.
\<close>

fun add_counts :: "dict \<Rightarrow> dict \<Rightarrow> dict \<times> error option" where
  "add_counts [] tot = (tot, None)"
| "add_counts ((n, c) # items) tot =
     (case dict_get tot n of
        None \<Rightarrow> (tot, Some (KeyError n))
      | Some t \<Rightarrow> add_counts items (dict_set n (t + c) tot))"

text \<open>\<^verbatim>\<open>ext = Path(fname).suffix.lstrip(".")\<close> (line 108).\<close>

definition ext_of :: "string \<Rightarrow> string" where
  "ext_of fname = lstrip (path_suffix fname) CHR ''.''"

text \<open>
  Lines 113 to 120: the report of one file and, in apply mode, the write. The condition
  \<^verbatim>\<open>args.apply and new_text != fpath.read_text()\<close> reads the file again only when
  \<^verbatim>\<open>args.apply\<close> holds.
\<close>

definition report_and_write ::
  "env \<Rightarrow> Args \<Rightarrow> path \<Rightarrow> string \<Rightarrow> dict \<Rightarrow> run_state \<Rightarrow> run_state \<times> error option" where
  "report_and_write e args fpath new_text counts st =
     (if \<exists>c \<in> set (map snd counts). c \<noteq> 0 then
        (case relative_to e fpath (cwd e) of
           None \<Rightarrow> (st, Some (ValueError fpath))
         | Some rel \<Rightarrow>
             let st1 = print (FileHeader rel #
                          map (\<lambda>(n, c). FileCount n c) (filter (\<lambda>(n, c). c \<noteq> 0) counts)) st
             in if apply_arg args then
                  (case read_text (files st1) fpath of
                     None \<Rightarrow> (log_event (Reread fpath) st1, Some (ReadError fpath))
                   | Some current \<Rightarrow>
                       let st2 = log_event (Reread fpath) st1
                       in if new_text \<noteq> current then
                            (if can_write e fpath
                             then (log_event (Write fpath new_text)
                                     (st2\<lparr>files := write_text e (files st2) fpath new_text\<rparr>), None)
                             else (log_event (Write fpath new_text) st2, Some (WriteError fpath)))
                          else (st2, None))
                else (st1, None))
      else (st, None))"

text \<open>The body of the loop over the file names of one directory (lines 108 to 122).\<close>

definition file_step ::
  "env \<Rightarrow> Args \<Rightarrow> Settings \<Rightarrow> Replacement list \<Rightarrow> path \<Rightarrow> string \<Rightarrow> run_state
     \<Rightarrow> run_state \<times> error option" where
  "file_step e args settings replacements root fname st =
     (if ext_of fname \<notin> set (include_extensions settings) then (st, None)
      else
        let fpath = joinpath e root fname
        in case process_file (files st) fpath replacements of
             Inl err \<Rightarrow> (log_event (ProcessFile fpath None) st, Some err)
           | Inr (new_text, counts) \<Rightarrow>
               (case report_and_write e args fpath new_text counts
                       (log_event (ProcessFile fpath (Some (new_text, counts))) st) of
                  (st1, Some err) \<Rightarrow> (st1, Some err)
                | (st1, None) \<Rightarrow>
                    (case add_counts counts (total_counts st1) of
                       (tot, err) \<Rightarrow> (st1\<lparr>total_counts := tot\<rparr>, err))))"

text \<open>The body of the loop over \<^verbatim>\<open>os.walk(base)\<close> (lines 106 to 122).\<close>

definition walk_step ::
  "env \<Rightarrow> Args \<Rightarrow> Settings \<Rightarrow> Replacement list \<Rightarrow> path \<times> string list \<Rightarrow> run_state
     \<Rightarrow> run_state \<times> error option" where
  "walk_step e args settings replacements = (\<lambda>(root, fnames) st.
     for_each (file_step e args settings replacements root) fnames st)"

text \<open>The body of the loop over the configured directories (lines 102 to 122).\<close>

definition dir_step ::
  "env \<Rightarrow> Args \<Rightarrow> Settings \<Rightarrow> Replacement list \<Rightarrow> string \<Rightarrow> run_state
     \<Rightarrow> run_state \<times> error option" where
  "dir_step e args settings replacements rel_dir st =
     (let base = joinpath e (cwd e) rel_dir;
          st1 = log_event (IsDir base) st
      in if \<not> is_dir e base then (st1, None)
         else for_each (walk_step e args settings replacements) (walk e base)
                (log_event (Walk base) st1))"

definition summary :: "dict \<Rightarrow> out_line list" where
  "summary tot = SummaryHeader # map (\<lambda>(n, c). SummaryCount n c) tot"

definition start :: "(path \<rightharpoonup> string) \<Rightarrow> run_state" where
  "start fs = \<lparr>files = fs, stdout = [], total_counts = [], trace = []\<rparr>"

text \<open>
  \<^verbatim>\<open>main\<close> from line 90 on, run on the parsed arguments and the file contents \<open>fs\<close>. It
  returns the state at the end of the run and the error that ended it, if any.
\<close>

definition main :: "env \<Rightarrow> Args \<Rightarrow> (path \<rightharpoonup> string) \<Rightarrow> run_state \<times> error option" where
  "main e args fs =
     (if \<not> dry_run args \<and> \<not> apply_arg args then (start fs, Some UsageError)
      else
        let st0 = log_event (LoadConfig (config args)) (start fs)
        in case load_config e (config args) of
             Inl err \<Rightarrow> (st0, Some err)
           | Inr (settings, replacements) \<Rightarrow>
               if directories settings = [] then
                 (st0, Some (SystemExit ''No directories specified in [settings.directories]''))
               else
                 (case for_each (dir_step e args settings replacements) (directories settings)
                         (st0\<lparr>total_counts := init_totals replacements []\<rparr>) of
                    (st1, Some err) \<Rightarrow> (st1, Some err)
                  | (st1, None) \<Rightarrow> (print (summary (total_counts st1)) st1, None)))"

subsection \<open>Notions of the specification\<close>

text \<open>The rule applier on a text: the text and the counts \<^verbatim>\<open>process_file\<close> returns.\<close>

definition apply_rules :: "Replacement list \<Rightarrow> string \<Rightarrow> string \<times> dict" where
  "apply_rules replacements text = rule_loop replacements (text, [])"

text \<open>The text after every rule of a list has replaced its occurrences, in order.\<close>

fun text_after :: "Replacement list \<Rightarrow> string \<Rightarrow> string" where
  "text_after [] text = text"
| "text_after (r # rs) text = text_after rs (str_replace text (search r) (replace r))"

text \<open>
  The extension in the words of the specification: the text after the last dot of the
  name (nothing when the name has no dot).
\<close>

definition spec_extension :: "string \<Rightarrow> string" where
  "spec_extension fname =
     (if CHR ''.'' \<in> set fname then rev (takeWhile (\<lambda>c. c \<noteq> CHR ''.'') (rev fname)) else [])"

text \<open>The counts that the calls of \<^verbatim>\<open>process_file\<close> in a trace returned, in order.\<close>

fun file_counts :: "event list \<Rightarrow> dict list" where
  "file_counts [] = []"
| "file_counts (ProcessFile p (Some (t, c)) # evs) = c # file_counts evs"
| "file_counts (ev # evs) = file_counts evs"

definition count_in :: "dict \<Rightarrow> string \<Rightarrow> nat" where
  "count_in d n = (case dict_get d n of None \<Rightarrow> 0 | Some c \<Rightarrow> c)"

text \<open>
  The invariant of the accumulated totals: they hold exactly the rule names, and the
  total of a name is the sum of its counts over the calls of \<^verbatim>\<open>process_file\<close> so far.
\<close>

definition totals_inv :: "Replacement list \<Rightarrow> run_state \<Rightarrow> bool" where
  "totals_inv replacements st \<longleftrightarrow>
     fst ` set (total_counts st) = name ` set replacements \<and>
     (\<forall>n \<in> name ` set replacements.
        dict_get (total_counts st) n =
          Some (sum_list (map (\<lambda>c. count_in c n) (file_counts (trace st)))))"

text \<open>
  The pieces of a text between the occurrences of a search string, and the text with a
  separator between the pieces (\<^verbatim>\<open>sep.join(pieces)\<close>).
\<close>

fun join :: "string \<Rightarrow> string list \<Rightarrow> string" where
  "join sep [] = []"
| "join sep [x] = x"
| "join sep (x # y # ys) = x @ sep @ join sep (y # ys)"

text \<open>
  \<open>leftmost_split sub s segs\<close>: cutting \<open>s\<close> at non-overlapping occurrences of \<open>sub\<close>
  leaves the pieces \<open>segs\<close>, and every cut is at the first occurrence of \<open>sub\<close> that
  starts behind the cut before it: in a piece followed by \<open>sub\<close> no occurrence starts
  before the end of the piece, and the last piece holds no occurrence.
\<close>

definition leftmost_split :: "string \<Rightarrow> string \<Rightarrow> string list \<Rightarrow> bool" where
  "leftmost_split sub s segs \<longleftrightarrow>
     segs \<noteq> [] \<and> s = join sub segs \<and>
     (\<forall>seg \<in> set (butlast segs). \<not> sublist sub (butlast (seg @ sub))) \<and>
     \<not> sublist sub (last segs)"

text \<open>
  The file contents after the writes of a trace have reached the files \<open>fs\<close>, and the
  check that every write of a trace, taken in order from the files \<open>fs\<close>, writes a
  text that differs from what reading the file at that moment returns.
\<close>

fun disk_after :: "env \<Rightarrow> (path \<rightharpoonup> string) \<Rightarrow> event list \<Rightarrow> (path \<rightharpoonup> string)" where
  "disk_after e fs [] = fs"
| "disk_after e fs (Write q t # evs) = disk_after e (write_text e fs q t) evs"
| "disk_after e fs (ev # evs) = disk_after e fs evs"

fun writes_differ :: "env \<Rightarrow> (path \<rightharpoonup> string) \<Rightarrow> event list \<Rightarrow> bool" where
  "writes_differ e fs [] = True"
| "writes_differ e fs (Write q t # evs) =
     ((case read_text fs q of None \<Rightarrow> False | Some current \<Rightarrow> current \<noteq> t) \<and>
      writes_differ e (write_text e fs q t) evs)"
| "writes_differ e fs (ev # evs) = writes_differ e fs evs"

text \<open>
  The invariant of the writes of a run started on the files \<open>fs\<close>: every write so far
  differed from the file as read at that moment, and while no error has been raised
  the file contents are those the writes of the trace have produced.
\<close>

definition disk_inv :: "env \<Rightarrow> (path \<rightharpoonup> string) \<Rightarrow> run_state \<times> error option \<Rightarrow> bool" where
  "disk_inv e fs = (\<lambda>(st, r).
     writes_differ e fs (trace st) \<and> (r = None \<longrightarrow> disk_after e fs (trace st) = files st))"

text \<open>
  In a run that must not write, the file contents stay those at the start and the trace
  holds no write.
\<close>

definition untouched :: "(path \<rightharpoonup> string) \<Rightarrow> run_state \<Rightarrow> bool" where
  "untouched fs st \<longleftrightarrow> files st = fs \<and> (\<forall>q t. Write q t \<notin> set (trace st))"

subsection \<open>Example inputs\<close>

text \<open>The rule and the text of the example in the specification.\<close>

definition alias_rule :: Replacement where
  "alias_rule = \<lparr>name = ''x'', search = ''alias '', replace = ''comptime ''\<rparr>"

definition alias_text :: string where
  "alias_text = ''alias Foo = Int'' @ [CHR 0x0A] @ ''alias Bar = Int'' @ [CHR 0x0A]"

text \<open>
  A working directory \<^verbatim>\<open>/r\<close> with one directory \<^verbatim>\<open>src\<close> of three files, and the
  configuration file \<^verbatim>\<open>c.toml\<close>, which names the directories \<^verbatim>\<open>src\<close> and \<^verbatim>\<open>gone\<close>
  (the second does not exist), leaves \<^verbatim>\<open>include_extensions\<close> to its default and holds the
  rule of the example.
\<close>

definition ex_doc :: toml_doc where
  "ex_doc =
     \<lparr>doc_settings = Some \<lparr>tbl_include_extensions = None,
                            tbl_directories = Some [''src'', ''gone'']\<rparr>,
      doc_replacements = Some [\<lparr>item_name = Some ''x'', item_search = Some ''alias '',
                                item_replace = Some ''comptime ''\<rparr>]\<rparr>"

definition ex_env :: env where
  "ex_env =
     \<lparr>cwd = ''/r'',
      joinpath = (\<lambda>a b. a @ ''/'' @ b),
      relative_to = (\<lambda>p root. if prefix (root @ ''/'') p
                                then Some (drop (length root + 1) p) else None),
      read_toml = (\<lambda>p. if p = ''c.toml'' then Some ex_doc else None),
      node_at = (\<lambda>p. if p = ''/r/src'' then Some Directory else None),
      walk = (\<lambda>p. if p = ''/r/src'' then [(''/r/src'', [''a.mojo'', ''.mojo'', ''b.txt''])]
                   else []),
      can_write = (\<lambda>p. True),
      linesep = [CHR 0x0A]\<rparr>"

definition ex_fs :: "path \<rightharpoonup> string" where
  "ex_fs = [''/r/src/a.mojo'' \<mapsto> alias_text, ''/r/src/.mojo'' \<mapsto> ''alias '',
            ''/r/src/b.txt'' \<mapsto> ''alias '']"

definition ex_args :: "bool \<Rightarrow> bool \<Rightarrow> Args" where
  "ex_args d a = \<lparr>config = ''c.toml'', dry_run = d, apply_arg = a\<rparr>"

definition ex_settings :: Settings where
  "ex_settings = \<lparr>include_extensions = [''mojo''], directories = [''src'', ''gone'']\<rparr>"

text \<open>
  The same environment with a configuration file that has no \<^verbatim>\<open>[settings]\<close> table, and
  with no directory at all.
\<close>

definition no_dirs_env :: env where
  "no_dirs_env = ex_env\<lparr>read_toml := (\<lambda>p. Some \<lparr>doc_settings = None, doc_replacements = None\<rparr>)\<rparr>"


text \<open>
  Two rules with the same name.
\<close>

definition x_twice :: "Replacement list" where
  "x_twice = [\<lparr>name = ''x'', search = ''a'', replace = ''b''\<rparr>,
              \<lparr>name = ''x'', search = ''c'', replace = ''d''\<rparr>]"

section \<open>Properties\<close>

subsection \<open>Counting and replacing\<close>

lemma count_scan_zero_iff: "sub \<noteq> [] \<Longrightarrow> count_scan sub s = 0 \<longleftrightarrow> \<not> sublist sub s"
  by (induction sub s rule: count_scan.induct) (auto simp: sublist_Cons_right)

lemma replace_scan_id: "count_scan old s = 0 \<Longrightarrow> replace_scan old new s = s"
  by (induction old s rule: count_scan.induct) (auto split: if_splits)

lemma str_count_zero_iff: "str_count s sub = 0 \<longleftrightarrow> \<not> sublist sub s"
  by (simp add: str_count_def count_scan_zero_iff)

lemma str_replace_id: "str_count s sub = 0 \<Longrightarrow> str_replace s sub new = s"
  by (auto simp: str_count_def str_replace_def replace_scan_id split: if_splits)

lemma join_Cons: "ys \<noteq> [] \<Longrightarrow> join sep (x # ys) = x @ sep @ join sep ys"
  by (cases ys) simp_all

lemma sublist_length_le: "sublist xs ys \<Longrightarrow> length xs \<le> length ys"
  by (auto simp: sublist_def)

lemma scan_segments:
  assumes "sub \<noteq> []"
  shows "\<exists>segs. leftmost_split sub s segs \<and> count_scan sub s = length segs - 1 \<and>
           replace_scan sub new s = join new segs"
  using assms
proof (induction sub s rule: count_scan.induct)
  case (1 sub)
  then have "leftmost_split sub [] [[]]"
    by (simp add: leftmost_split_def)
  then show ?case
    by (intro exI [of _ "[[]]"]) simp
next
  case (2 sub c cs)
  show ?case
  proof (cases "prefix sub (c # cs)")
    case True
    define rest where "rest = drop (length sub) (c # cs)"
    from True have s: "c # cs = sub @ rest"
      by (auto simp: rest_def prefix_def)
    from "2.IH"(1) "2.prems" True obtain segs where
      sp: "leftmost_split sub rest segs" and cn: "count_scan sub rest = length segs - 1"
      and rp: "replace_scan sub new rest = join new segs"
      by (auto simp: rest_def)
    from sp have ne: "segs \<noteq> []"
      by (simp add: leftmost_split_def)
    have nb: "\<not> sublist sub (butlast sub)"
      using sublist_length_le [of sub "butlast sub"] "2.prems" by (cases sub) auto
    have "leftmost_split sub (c # cs) ([] # segs)"
      using sp ne nb s by (auto simp: leftmost_split_def join_Cons)
    moreover have "count_scan sub (c # cs) = length ([] # segs) - 1"
      using True "2.prems" cn ne by (cases segs) (simp_all add: rest_def)
    moreover have "replace_scan sub new (c # cs) = join new ([] # segs)"
      using True "2.prems" rp ne by (simp add: rest_def join_Cons)
    ultimately show ?thesis by blast
  next
    case False
    from "2.IH"(2) "2.prems" False obtain segs where
      sp: "leftmost_split sub cs segs" and cn: "count_scan sub cs = length segs - 1"
      and rp: "replace_scan sub new cs = join new segs"
      by auto
    from sp obtain seg0 more where segs: "segs = seg0 # more"
      by (cases segs) (auto simp: leftmost_split_def)
    have "leftmost_split sub (c # cs) ((c # seg0) # more)"
    proof (cases "more = []")
      case True
      with sp segs have cs: "cs = seg0" and n0: "\<not> sublist sub seg0"
        by (simp_all add: leftmost_split_def)
      with False have "\<not> sublist sub (c # seg0)"
        by (simp add: sublist_Cons_right)
      with True cs show ?thesis
        by (simp add: leftmost_split_def)
    next
      case mne: False
      with sp segs have cs: "cs = seg0 @ sub @ join sub more"
        and n0: "\<not> sublist sub (butlast (seg0 @ sub))"
        and rest: "\<forall>seg \<in> set (butlast more). \<not> sublist sub (butlast (seg @ sub))"
        and lst: "\<not> sublist sub (last more)"
        by (simp_all add: leftmost_split_def join_Cons)
      have "prefix (butlast (seg0 @ sub)) (seg0 @ sub)"
        by (metis append_butlast_last_id append_is_Nil_conv "2.prems" prefixI)
      then have "prefix (c # butlast (seg0 @ sub)) (c # cs)"
        by (simp add: cs) (metis append.assoc prefix_prefix)
      with False have "\<not> prefix sub (c # butlast (seg0 @ sub))"
        using prefix_order.trans by blast
      with n0 have "\<not> sublist sub (c # butlast (seg0 @ sub))"
        by (simp add: sublist_Cons_right)
      moreover have "butlast ((c # seg0) @ sub) = c # butlast (seg0 @ sub)"
        using "2.prems" by simp
      ultimately show ?thesis
        using mne cs rest lst by (simp add: leftmost_split_def join_Cons)
    qed
    moreover have "count_scan sub (c # cs) = length ((c # seg0) # more) - 1"
      using False cn segs by simp
    moreover have "replace_scan sub new (c # cs) = join new ((c # seg0) # more)"
      using False rp segs by (cases more) simp_all
    ultimately show ?thesis by blast
  qed
qed

lemma str_segments:
  assumes "sub \<noteq> []"
  shows "\<exists>segs. leftmost_split sub s segs \<and> str_count s sub = length segs - 1 \<and>
           str_replace s sub new = join new segs"
  using scan_segments [OF assms, of s new] assms by (simp add: str_count_def str_replace_def)

subsection \<open>Dictionaries\<close>

lemma dict_get_set: "dict_get (dict_set k v d) k' = (if k' = k then Some v else dict_get d k')"
  by (induction d) (auto simp: dict_get_def)

lemma keys_dict_set: "fst ` set (dict_set k v d) = insert k (fst ` set d)"
  by (induction k v d rule: dict_set.induct) (auto simp: image_iff)

lemma distinct_dict_set: "distinct (map fst d) \<Longrightarrow> distinct (map fst (dict_set k v d))"
  by (induction d) (auto simp: keys_dict_set)

lemma keys_dict_set_same: "k \<in> fst ` set d \<Longrightarrow> map fst (dict_set k v d) = map fst d"
  by (induction k v d rule: dict_set.induct) (auto simp: image_iff)

lemma values_dict_set: "snd ` set (dict_set k v d) \<subseteq> insert v (snd ` set d)"
  by (induction k v d rule: dict_set.induct) (auto simp: image_iff)

lemma dict_get_None_iff: "dict_get d k = None \<longleftrightarrow> k \<notin> fst ` set d"
  by (simp add: dict_get_def map_of_eq_None_iff)

lemma count_in_Cons: "count_in ((n, c) # items) m = (if m = n then c else count_in items m)"
  by (simp add: count_in_def dict_get_def)

lemma count_in_absent: "n \<notin> fst ` set d \<Longrightarrow> count_in d n = 0"
  using dict_get_None_iff [of d n] by (simp add: count_in_def)

lemma add_counts_ok:
  assumes "distinct (map fst cs)" and "fst ` set cs \<subseteq> fst ` set tot"
  shows "\<exists>tot'. add_counts cs tot = (tot', None) \<and> map fst tot' = map fst tot \<and>
           (\<forall>n. dict_get tot' n =
              (case dict_get tot n of None \<Rightarrow> None | Some t \<Rightarrow> Some (t + count_in cs n)))"
  using assms
proof (induction cs arbitrary: tot)
  case Nil
  then show ?case
    by (auto simp: count_in_def dict_get_def split: option.splits)
next
  case (Cons a items)
  obtain n c where a: "a = (n, c)"
    by (cases a)
  from Cons.prems a have n_in: "n \<in> fst ` set tot" and n_notin: "n \<notin> fst ` set items"
    and d: "distinct (map fst items)" and sub: "fst ` set items \<subseteq> fst ` set tot"
    by auto
  from n_in obtain t where t: "dict_get tot n = Some t"
    using dict_get_None_iff [of tot n] by auto
  let ?tot1 = "dict_set n (t + c) tot"
  have keys1: "map fst ?tot1 = map fst tot"
    using n_in by (rule keys_dict_set_same)
  then have "fst ` set ?tot1 = fst ` set tot"
    by (metis list.set_map)
  with sub have sub1: "fst ` set items \<subseteq> fst ` set ?tot1"
    by simp
  from Cons.IH [OF d sub1] obtain tot' where
    r: "add_counts items ?tot1 = (tot', None)" and k: "map fst tot' = map fst ?tot1"
    and g: "\<forall>m. dict_get tot' m =
              (case dict_get ?tot1 m of None \<Rightarrow> None | Some u \<Rightarrow> Some (u + count_in items m))"
    by blast
  have "add_counts (a # items) tot = (tot', None)"
    by (simp add: a t r)
  moreover have "map fst tot' = map fst tot"
    using k keys1 by simp
  moreover have "dict_get tot' m =
      (case dict_get tot m of None \<Rightarrow> None | Some u \<Rightarrow> Some (u + count_in (a # items) m))" for m
    using g t n_notin
    by (auto simp: a dict_get_set count_in_Cons count_in_absent split: option.splits)
  ultimately show ?case by blast
qed

lemma dict_get_init_totals:
  "dict_get (init_totals rs d) n = (if n \<in> name ` set rs then Some 0 else dict_get d n)"
  by (induction rs arbitrary: d) (auto simp: dict_get_set)

lemma keys_init_totals: "fst ` set (init_totals rs d) = fst ` set d \<union> name ` set rs"
  by (induction rs arbitrary: d) (auto simp: keys_dict_set)



subsection \<open>The loop over the rules\<close>

lemma rule_step_eq:
  "rule_step r (t, d) =
     (str_replace t (search r) (replace r), dict_set (name r) (str_count t (search r)) d)"
  by (simp add: rule_step_def Let_def str_replace_id)

lemma fst_rule_loop: "fst (rule_loop rs (t, d)) = text_after rs t"
  by (induction rs arbitrary: t d) (simp_all add: rule_step_eq)

lemma rule_loop_append: "rule_loop (rs1 @ rs2) st = rule_loop rs2 (rule_loop rs1 st)"
  by (induction rs1 arbitrary: st) simp_all

lemma text_after_append: "text_after (rs1 @ rs2) t = text_after rs2 (text_after rs1 t)"
  by (induction rs1 arbitrary: t) simp_all

lemma keys_rule_loop: "fst ` set (snd (rule_loop rs (t, d))) = fst ` set d \<union> name ` set rs"
  by (induction rs arbitrary: t d) (auto simp: rule_step_eq keys_dict_set)

lemma distinct_rule_loop:
  "distinct (map fst d) \<Longrightarrow> distinct (map fst (snd (rule_loop rs (t, d))))"
  by (induction rs arbitrary: t d) (simp_all add: rule_step_eq distinct_dict_set)

lemma dict_get_rule_loop_other:
  "n \<notin> name ` set rs \<Longrightarrow> dict_get (snd (rule_loop rs (t, d))) n = dict_get d n"
  by (induction rs arbitrary: t d) (auto simp: rule_step_eq dict_get_set)

lemma rule_loop_last_wins:
  assumes "name r \<notin> name ` set rs2"
  shows "dict_get (snd (rule_loop (rs1 @ r # rs2) (t, d))) (name r) =
           Some (str_count (text_after rs1 t) (search r))"
proof -
  obtain t1 d1 where st1: "rule_loop rs1 (t, d) = (t1, d1)"
    by (cases "rule_loop rs1 (t, d)")
  have t1: "t1 = text_after rs1 t"
    using fst_rule_loop [of rs1 t d] st1 by simp
  show ?thesis
    using assms by (simp add: rule_loop_append st1 rule_step_eq dict_get_rule_loop_other dict_get_set t1)
qed

lemma rule_loop_snoc:
  "rule_loop (rs @ [r]) (t, d) =
     (str_replace (text_after rs t) (search r) (replace r),
      dict_set (name r) (str_count (text_after rs t) (search r)) (snd (rule_loop rs (t, d))))"
proof -
  obtain t1 d1 where st1: "rule_loop rs (t, d) = (t1, d1)"
    by (cases "rule_loop rs (t, d)")
  have "t1 = text_after rs t"
    using fst_rule_loop [of rs t d] st1 by simp
  then show ?thesis
    by (simp add: rule_loop_append st1 rule_step_eq)
qed

lemma counts_zero_rule_loop:
  assumes "\<forall>r \<in> set rs. \<not> sublist (search r) t" "\<forall>c \<in> snd ` set d. c = 0"
  shows "rule_loop rs (t, d) = (t, snd (rule_loop rs (t, d))) \<and> (\<forall>c \<in> snd ` set (snd (rule_loop rs (t, d))). c = 0)"
  using assms
proof (induction rs arbitrary: d)
  case Nil
  then show ?case by simp
next
  case (Cons r rs)
  have z: "str_count t (search r) = 0"
    using Cons.prems(1) by (simp add: str_count_zero_iff)
  have step: "rule_step r (t, d) = (t, dict_set (name r) 0 d)"
    by (simp add: rule_step_eq z str_replace_id)
  have "\<forall>c \<in> snd ` set (dict_set (name r) 0 d). c = 0"
    using Cons.prems(2) values_dict_set [of "name r" 0 d] by auto
  with Cons.IH [of "dict_set (name r) 0 d"] Cons.prems(1) show ?case
    by (simp add: step)
qed

lemma process_file_counts:
  assumes "process_file fs p rs = Inr (nt, counts)"
  shows "fst ` set counts = name ` set rs" and "distinct (map fst counts)"
proof -
  from assms obtain t where "counts = snd (rule_loop rs (t, []))"
    by (auto simp: process_file_def split: option.splits) (metis snd_conv)
  then show "fst ` set counts = name ` set rs" and "distinct (map fst counts)"
    by (simp_all add: keys_rule_loop distinct_rule_loop)
qed

subsection \<open>The extension of a file name\<close>

lemma rfind_from_absent: "c \<notin> set s \<Longrightarrow> rfind_from s c i best = best"
  by (induction s arbitrary: i best) auto

lemma rfind_from_last:
  "c \<notin> set b \<Longrightarrow> rfind_from (a @ c # b) c i best = i + int (length a)"
  by (induction a arbitrary: i best) (simp_all add: rfind_from_absent)

lemma ext_of_no_dot: "CHR ''.'' \<notin> set fname \<Longrightarrow> ext_of fname = []"
  by (simp add: ext_of_def path_suffix_def rfind_def rfind_from_absent lstrip_def)

lemma ext_of_last_dot:
  assumes "CHR ''.'' \<notin> set b"
  shows "ext_of (a @ CHR ''.'' # b) = (if a \<noteq> [] \<and> b \<noteq> [] then b else [])"
proof -
  have r: "rfind (a @ CHR ''.'' # b) CHR ''.'' = int (length a)"
    using rfind_from_last [OF assms, of a 0 "- 1"] by (simp add: rfind_def)
  have d: "dropWhile (\<lambda>x. x = CHR ''.'') b = b"
    using assms by (cases b) auto
  show ?thesis
    by (auto simp: ext_of_def path_suffix_def r lstrip_def d Let_def)
qed

lemma spec_extension_last_dot:
  assumes "CHR ''.'' \<notin> set b"
  shows "spec_extension (a @ CHR ''.'' # b) = b"
proof -
  have "\<And>x. x \<in> set (rev b) \<Longrightarrow> x \<noteq> CHR ''.''"
    using assms by auto
  then have "takeWhile (\<lambda>c. c \<noteq> CHR ''.'') (rev b @ CHR ''.'' # rev a) =
      rev b @ takeWhile (\<lambda>c. c \<noteq> CHR ''.'') (CHR ''.'' # rev a)"
    by (rule takeWhile_append2)
  then have "takeWhile (\<lambda>c. c \<noteq> CHR ''.'') (rev b @ CHR ''.'' # rev a) = rev b"
    by simp
  then show ?thesis
    by (simp add: spec_extension_def)
qed

lemma ext_of_char:
  "ext_of fname =
     (if \<exists>b. fname = CHR ''.'' # b \<and> CHR ''.'' \<notin> set b then [] else spec_extension fname)"
proof (cases "CHR ''.'' \<in> set fname")
  case False
  then show ?thesis
    by (auto simp: ext_of_no_dot spec_extension_def)
next
  case True
  then obtain a b where f: "fname = a @ CHR ''.'' # b" and b: "CHR ''.'' \<notin> set b"
    using split_list_last [of "CHR ''.''" fname] by blast
  show ?thesis
  proof (cases "a = []")
    case True
    with f b show ?thesis
      using ext_of_last_dot [OF b, of "[]"] by auto
  next
    case False
    then have "\<not> (\<exists>b'. fname = CHR ''.'' # b' \<and> CHR ''.'' \<notin> set b')"
      using f by (cases a) auto
    then show ?thesis
      using ext_of_last_dot [OF b, of a] spec_extension_last_dot [OF b, of a] False f
      by (auto simp: spec_extension_def)
  qed
qed

subsection \<open>The loops of \<^verbatim>\<open>main\<close>\<close>

lemma for_each_inv:
  assumes "\<And>x s. P (s, None) \<Longrightarrow> P (body x s)" and "P (s, None)"
  shows "P (for_each body xs s)"
  using assms(2)
proof (induction xs arbitrary: s)
  case Nil
  then show ?case by simp
next
  case (Cons x xs)
  obtain s' r where b: "body x s = (s', r)"
    by (cases "body x s")
  have p: "P (s', r)"
    using assms(1) [OF Cons.prems, of x] b by simp
  show ?case
  proof (cases r)
    case None
    with p b Cons.IH [of s'] show ?thesis by simp
  next
    case (Some e)
    with p b show ?thesis by simp
  qed
qed

lemma file_counts_append: "file_counts (xs @ ys) = file_counts xs @ file_counts ys"
  by (induction xs rule: file_counts.induct) simp_all

lemma raw_total_counts [simp]:
  "total_counts (fst (report_and_write e args p nt cs st)) = total_counts st"
  by (auto simp: report_and_write_def log_event_def print_def Let_def split: option.splits)

lemma raw_file_counts [simp]:
  "file_counts (trace (fst (report_and_write e args p nt cs st))) = file_counts (trace st)"
  by (auto simp: report_and_write_def log_event_def print_def Let_def file_counts_append
      split: option.splits)

lemma raw_files_dry:
  "\<not> apply_arg args \<Longrightarrow> files (fst (report_and_write e args p nt cs st)) = files st"
  by (auto simp: report_and_write_def log_event_def print_def Let_def split: option.splits)

lemma raw_writes:
  "Write q t \<in> set (trace (fst (report_and_write e args p nt cs st))) \<Longrightarrow>
     apply_arg args \<or> Write q t \<in> set (trace st)"
  by (auto simp: report_and_write_def log_event_def print_def Let_def split: option.splits if_splits)

lemma raw_files_change:
  "files (fst (report_and_write e args p nt cs st)) \<noteq> files st \<Longrightarrow>
     apply_arg args \<and> (\<exists>cur. read_text (files st) p = Some cur \<and> nt \<noteq> cur) \<and>
     files (fst (report_and_write e args p nt cs st)) = write_text e (files st) p nt"
  by (auto simp: report_and_write_def log_event_def print_def Let_def split: option.splits if_splits)

lemma raw_events:
  assumes "report_and_write e args p nt cs st = (st1, r1)"
  shows "\<exists>evs. trace st1 = trace st @ evs \<and>
           (\<forall>q t. Write q t \<in> set evs \<longrightarrow>
              apply_arg args \<and> q = p \<and> t = nt \<and>
              (\<exists>cur. read_text (files st) p = Some cur \<and> nt \<noteq> cur)) \<and>
           writes_differ e (files st) evs \<and>
           (r1 = None \<longrightarrow> disk_after e (files st) evs = files st1)"
  using assms
  by (auto simp: report_and_write_def log_event_def print_def Let_def
      split: option.splits if_splits)

lemma raw_trace:
  "\<exists>evs. trace (fst (report_and_write e args p nt cs st)) = trace st @ evs"
  by (auto simp: report_and_write_def log_event_def print_def Let_def split: option.splits)

lemma file_step_cases:
  obtains (skip) "ext_of fname \<notin> set (include_extensions settings)"
      "file_step e args settings rs root fname st = (st, None)"
  | (unreadable) err where "ext_of fname \<in> set (include_extensions settings)"
      "file_step e args settings rs root fname st =
         (log_event (ProcessFile (joinpath e root fname) None) st, Some err)"
  | (processed) nt counts st1 r1 tot r2 where
      "ext_of fname \<in> set (include_extensions settings)"
      "process_file (files st) (joinpath e root fname) rs = Inr (nt, counts)"
      "report_and_write e args (joinpath e root fname) nt counts
         (log_event (ProcessFile (joinpath e root fname) (Some (nt, counts))) st) = (st1, r1)"
      "add_counts counts (total_counts st1) = (tot, r2)"
      "file_step e args settings rs root fname st =
         (if r1 = None then (st1\<lparr>total_counts := tot\<rparr>, r2) else (st1, r1))"
proof (cases "ext_of fname \<in> set (include_extensions settings)")
  case False
  then show ?thesis
    using skip by (simp add: file_step_def)
next
  case True
  show ?thesis
  proof (cases "process_file (files st) (joinpath e root fname) rs")
    case (Inl err)
    with True show ?thesis
      using unreadable [of err] by (simp add: file_step_def)
  next
    case (Inr res)
    obtain nt counts where res: "res = (nt, counts)"
      by (cases res)
    obtain st1 r1 where rw: "report_and_write e args (joinpath e root fname) nt counts
         (log_event (ProcessFile (joinpath e root fname) (Some (nt, counts))) st) = (st1, r1)"
      by (cases "report_and_write e args (joinpath e root fname) nt counts
         (log_event (ProcessFile (joinpath e root fname) (Some (nt, counts))) st)")
    obtain tot r2 where ac: "add_counts counts (total_counts st1) = (tot, r2)"
      by (cases "add_counts counts (total_counts st1)")
    have "file_step e args settings rs root fname st =
         (if r1 = None then (st1\<lparr>total_counts := tot\<rparr>, r2) else (st1, r1))"
      using True Inr res rw ac by (cases r1) (simp_all add: file_step_def)
    with True Inr res rw ac show ?thesis
      using processed by simp
  qed
qed

lemma totals_inv_log:
  "file_counts [ev] = [] \<Longrightarrow> totals_inv rs (log_event ev st) \<longleftrightarrow> totals_inv rs st"
  by (simp add: totals_inv_def log_event_def file_counts_append)

lemma file_step_totals:
  assumes inv: "totals_inv rs st"
    and step: "file_step e args settings rs root fname st = (st', None)"
  shows "totals_inv rs st'"
proof (cases "ext_of fname \<in> set (include_extensions settings)")
  case False
  with step inv show ?thesis by (simp add: file_step_def)
next
  case True
  define fpath where "fpath = joinpath e root fname"
  from step True obtain nt counts where pf: "process_file (files st) fpath rs = Inr (nt, counts)"
    by (auto simp: file_step_def fpath_def Let_def split: sum.splits)
  define st0 where "st0 = log_event (ProcessFile fpath (Some (nt, counts))) st"
  obtain st1 r1 where rw: "report_and_write e args fpath nt counts st0 = (st1, r1)"
    by (cases "report_and_write e args fpath nt counts st0")
  have st1_def: "st1 = fst (report_and_write e args fpath nt counts st0)"
    by (simp add: rw)
  obtain tot r2 where ac0: "add_counts counts (total_counts st1) = (tot, r2)"
    by (cases "add_counts counts (total_counts st1)")
  from step True pf rw ac0 have "r1 = None \<and> r2 = None \<and> st' = st1\<lparr>total_counts := tot\<rparr>"
    by (cases r1) (simp_all add: file_step_def fpath_def [symmetric] st0_def [symmetric] Let_def)
  with ac0 have ac: "add_counts counts (total_counts st1) = (tot, None)"
    and st': "st' = st1\<lparr>total_counts := tot\<rparr>"
    by simp_all
  have tc: "total_counts st1 = total_counts st"
    by (simp add: st1_def st0_def log_event_def)
  have fc: "file_counts (trace st') = file_counts (trace st) @ [counts]"
    by (simp add: st' st1_def st0_def log_event_def file_counts_append)
  have keys: "fst ` set counts = name ` set rs" and dist: "distinct (map fst counts)"
    using process_file_counts [OF pf] by simp_all
  from inv have tk: "fst ` set (total_counts st) = name ` set rs"
    by (simp add: totals_inv_def)
  from add_counts_ok [OF dist, of "total_counts st"] keys tk ac tc
  have mk: "map fst tot = map fst (total_counts st)"
    and g: "\<forall>n. dict_get tot n =
        (case dict_get (total_counts st) n of None \<Rightarrow> None | Some t \<Rightarrow> Some (t + count_in counts n))"
    by auto
  from mk have "fst ` set tot = fst ` set (total_counts st)"
    by (metis list.set_map)
  with tk have k': "fst ` set (total_counts st') = name ` set rs"
    by (simp add: st')
  have "dict_get (total_counts st') n =
          Some (sum_list (map (\<lambda>c. count_in c n) (file_counts (trace st'))))"
    if "n \<in> name ` set rs" for n
  proof -
    from inv that have "dict_get (total_counts st) n =
        Some (sum_list (map (\<lambda>c. count_in c n) (file_counts (trace st))))"
      unfolding totals_inv_def by blast
    with g fc show ?thesis
      by (simp add: st')
  qed
  with k' show ?thesis
    by (simp add: totals_inv_def)
qed

lemma walk_step_totals:
  assumes "totals_inv rs st" and "walk_step e args settings rs entry st = (st', None)"
  shows "totals_inv rs st'"
proof -
  obtain root fnames where entry: "entry = (root, fnames)"
    by (cases entry)
  have "(\<lambda>(s, r). r = None \<longrightarrow> totals_inv rs s)
          (for_each (file_step e args settings rs root) fnames st)"
  proof (rule for_each_inv)
    fix x s
    assume "(\<lambda>(s, r). r = None \<longrightarrow> totals_inv rs s) (s, None)"
    then show "(\<lambda>(s, r). r = None \<longrightarrow> totals_inv rs s) (file_step e args settings rs root x s)"
      using file_step_totals [of rs s e args settings root x]
      by (cases "file_step e args settings rs root x s") auto
  next
    show "(\<lambda>(s, r). r = None \<longrightarrow> totals_inv rs s) (st, None)"
      using assms(1) by simp
  qed
  with assms(2) show ?thesis
    by (simp add: walk_step_def entry)
qed

lemma dir_step_totals:
  assumes "totals_inv rs st" and "dir_step e args settings rs rel_dir st = (st', None)"
  shows "totals_inv rs st'"
proof -
  define base where "base = joinpath e (cwd e) rel_dir"
  define st1 where "st1 = log_event (IsDir base) st"
  have i1: "totals_inv rs st1"
    using assms(1) by (simp add: st1_def totals_inv_log)
  show ?thesis
  proof (cases "is_dir e base")
    case False
    with assms(2) i1 show ?thesis
      by (simp add: dir_step_def base_def [symmetric] st1_def [symmetric] Let_def)
  next
    case True
    have "(\<lambda>(s, r). r = None \<longrightarrow> totals_inv rs s)
          (for_each (walk_step e args settings rs) (walk e base) (log_event (Walk base) st1))"
    proof (rule for_each_inv)
      fix x s
      assume "(\<lambda>(s, r). r = None \<longrightarrow> totals_inv rs s) (s, None)"
      then show "(\<lambda>(s, r). r = None \<longrightarrow> totals_inv rs s) (walk_step e args settings rs x s)"
        using walk_step_totals [of rs s e args settings x]
        by (cases "walk_step e args settings rs x s") auto
    next
      show "(\<lambda>(s, r). r = None \<longrightarrow> totals_inv rs s) (log_event (Walk base) st1, None)"
        using i1 by (simp add: totals_inv_log)
    qed
    with assms(2) True show ?thesis
      by (simp add: dir_step_def base_def [symmetric] st1_def [symmetric] Let_def)
  qed
qed

lemma dirs_loop_totals:
  assumes "totals_inv rs st"
    and "for_each (dir_step e args settings rs) ds st = (st', None)"
  shows "totals_inv rs st'"
proof -
  have "(\<lambda>(s, r). r = None \<longrightarrow> totals_inv rs s) (for_each (dir_step e args settings rs) ds st)"
  proof (rule for_each_inv)
    fix x s
    assume "(\<lambda>(s, r). r = None \<longrightarrow> totals_inv rs s) (s, None)"
    then show "(\<lambda>(s, r). r = None \<longrightarrow> totals_inv rs s) (dir_step e args settings rs x s)"
      using dir_step_totals [of rs s e args settings x]
      by (cases "dir_step e args settings rs x s") auto
  next
    show "(\<lambda>(s, r). r = None \<longrightarrow> totals_inv rs s) (st, None)"
      using assms(1) by simp
  qed
  with assms(2) show ?thesis by simp
qed

lemma totals_inv_init:
  "totals_inv rs (log_event (LoadConfig p) (start fs) \<lparr>total_counts := init_totals rs []\<rparr>)"
  by (simp add: totals_inv_def log_event_def start_def dict_get_init_totals keys_init_totals)

lemma file_step_dry_files:
  assumes "\<not> apply_arg args"
  shows "files (fst (file_step e args settings rs root fname st)) = files st"
proof (cases rule: file_step_cases [of fname settings e args rs root st])
  case skip
  then show ?thesis by simp
next
  case (unreadable err)
  then show ?thesis by (simp add: log_event_def)
next
  case (processed nt counts st1 r1 tot r2)
  from raw_files_dry [OF assms, of e "joinpath e root fname" nt counts
      "log_event (ProcessFile (joinpath e root fname) (Some (nt, counts))) st"] processed(3)
  have "files st1 = files st"
    by (simp add: log_event_def)
  with processed(5) show ?thesis by simp
qed

lemma file_step_dry_trace:
  assumes "\<not> apply_arg args"
    and w: "Write q t \<in> set (trace (fst (file_step e args settings rs root fname st)))"
  shows "Write q t \<in> set (trace st)"
proof (cases rule: file_step_cases [of fname settings e args rs root st])
  case skip
  with w show ?thesis by simp
next
  case (unreadable err)
  with w show ?thesis by (simp add: log_event_def)
next
  case (processed nt counts st1 r1 tot r2)
  from w processed(5) have "Write q t \<in> set (trace st1)"
    by (simp split: if_splits)
  with raw_writes [of q t e args "joinpath e root fname" nt counts
      "log_event (ProcessFile (joinpath e root fname) (Some (nt, counts))) st"] processed(3) assms
  show ?thesis by (simp add: log_event_def)
qed

lemma file_step_untouched:
  assumes "\<not> apply_arg args" and "untouched fs st"
  shows "untouched fs (fst (file_step e args settings rs root fname st))"
  using assms file_step_dry_files [OF assms(1)] file_step_dry_trace [OF assms(1)]
  unfolding untouched_def by metis

lemma untouched_log: "\<forall>q t. ev \<noteq> Write q t \<Longrightarrow> untouched fs (log_event ev st) = untouched fs st"
  by (auto simp: untouched_def log_event_def)

lemma walk_step_untouched:
  assumes "\<not> apply_arg args" and "untouched fs st"
  shows "untouched fs (fst (walk_step e args settings rs entry st))"
proof -
  obtain root fnames where entry: "entry = (root, fnames)"
    by (cases entry)
  have "(\<lambda>(s, r). untouched fs s) (for_each (file_step e args settings rs root) fnames st)"
  proof (rule for_each_inv)
    fix x s
    assume "(\<lambda>(s, r). untouched fs s) (s, None)"
    then show "(\<lambda>(s, r). untouched fs s) (file_step e args settings rs root x s)"
      using file_step_untouched [OF assms(1), of fs s e settings rs root x]
      by (simp add: case_prod_unfold)
  next
    show "(\<lambda>(s, r). untouched fs s) (st, None)"
      using assms(2) by simp
  qed
  then show ?thesis
    by (simp add: walk_step_def entry case_prod_unfold)
qed

lemma dir_step_untouched:
  assumes "\<not> apply_arg args" and "untouched fs st"
  shows "untouched fs (fst (dir_step e args settings rs rel_dir st))"
proof -
  define base where "base = joinpath e (cwd e) rel_dir"
  have "(\<lambda>(s, r). untouched fs s)
          (for_each (walk_step e args settings rs) (walk e base)
             (log_event (Walk base) (log_event (IsDir base) st)))"
  proof (rule for_each_inv)
    fix x s
    assume "(\<lambda>(s, r). untouched fs s) (s, None)"
    then show "(\<lambda>(s, r). untouched fs s) (walk_step e args settings rs x s)"
      using walk_step_untouched [OF assms(1), of fs s e settings rs x]
      by (simp add: case_prod_unfold)
  next
    show "(\<lambda>(s, r). untouched fs s) (log_event (Walk base) (log_event (IsDir base) st), None)"
      using assms(2) by (simp add: untouched_log)
  qed
  with assms(2) show ?thesis
    by (simp add: dir_step_def base_def [symmetric] Let_def untouched_log case_prod_unfold)
qed

lemma main_untouched:
  assumes "\<not> apply_arg args"
  shows "untouched fs (fst (main e args fs))"
proof -
  have u0: "untouched fs (start fs)"
    by (simp add: untouched_def start_def)
  then have u1: "untouched fs (log_event (LoadConfig (config args)) (start fs))"
    by (simp add: untouched_log)
  have loop: "untouched fs (fst (for_each (dir_step e args settings rs) ds
                (log_event (LoadConfig (config args)) (start fs)\<lparr>total_counts := tot\<rparr>)))"
    for settings rs ds tot
  proof -
    have "(\<lambda>(s, r). untouched fs s) (for_each (dir_step e args settings rs) ds
                (log_event (LoadConfig (config args)) (start fs)\<lparr>total_counts := tot\<rparr>))"
    proof (rule for_each_inv)
      fix x s
      assume "(\<lambda>(s, r). untouched fs s) (s, None)"
      then show "(\<lambda>(s, r). untouched fs s) (dir_step e args settings rs x s)"
        using dir_step_untouched [OF assms, of fs s e settings rs x]
        by (simp add: case_prod_unfold)
    next
      show "(\<lambda>(s, r). untouched fs s)
              (log_event (LoadConfig (config args)) (start fs)\<lparr>total_counts := tot\<rparr>, None)"
        using u1 by (simp add: untouched_def)
    qed
    then show ?thesis by (simp add: case_prod_unfold)
  qed
  show ?thesis
  proof (cases "load_config e (config args)")
    case (Inl err)
    with u0 u1 show ?thesis by (simp add: main_def Let_def)
  next
    case (Inr res)
    obtain settings rs where res: "res = (settings, rs)"
      by (cases res)
    obtain st1 r1 where l: "for_each (dir_step e args settings rs) (directories settings)
        (log_event (LoadConfig (config args)) (start fs)\<lparr>total_counts := init_totals rs []\<rparr>) = (st1, r1)"
      by (cases "for_each (dir_step e args settings rs) (directories settings)
        (log_event (LoadConfig (config args)) (start fs)\<lparr>total_counts := init_totals rs []\<rparr>)")
    from loop [of settings rs "directories settings" "init_totals rs []"] l
    have "untouched fs st1" by simp
    then have "untouched fs (print (summary (total_counts st1)) st1)"
      by (simp add: untouched_def print_def)
    with \<open>untouched fs st1\<close> u0 u1 Inr res l show ?thesis
      by (cases r1) (simp_all add: main_def Let_def)
  qed
qed

lemma disk_after_append:
  "disk_after e fs (xs @ ys) = disk_after e (disk_after e fs xs) ys"
  by (induction e fs xs rule: disk_after.induct) simp_all

lemma writes_differ_append:
  "writes_differ e fs (xs @ ys) \<longleftrightarrow>
     writes_differ e fs xs \<and> writes_differ e (disk_after e fs xs) ys"
  by (induction e fs xs rule: writes_differ.induct) simp_all

lemma process_file_text:
  assumes "process_file fs p rs = Inr (nt, counts)"
  shows "\<exists>raw. fs p = Some raw \<and> read_text fs p = Some (universal_newlines raw) \<and>
           nt = fst (apply_rules rs (universal_newlines raw))"
  using assms
  by (auto simp: process_file_def read_text_def apply_rules_def split: option.splits)

lemma file_step_events:
  assumes "file_step e args settings rs root fname st = (st', r)"
  shows "\<exists>evs. trace st' = trace st @ evs \<and>
           (\<forall>q t. Write q t \<in> set evs \<longrightarrow>
              apply_arg args \<and> q = joinpath e root fname \<and>
              (\<exists>raw. files st q = Some raw \<and>
                 t = fst (apply_rules rs (universal_newlines raw)) \<and>
                 t \<noteq> universal_newlines raw)) \<and>
           writes_differ e (files st) evs \<and>
           (r = None \<longrightarrow> disk_after e (files st) evs = files st')"
proof (cases rule: file_step_cases [of fname settings e args rs root st])
  case skip
  with assms show ?thesis
    by (intro exI [of _ "[]"]) auto
next
  case (unreadable err)
  with assms show ?thesis
    by (intro exI [of _ "[ProcessFile (joinpath e root fname) None]"]) (auto simp: log_event_def)
next
  case (processed nt counts st1 r1 tot r2)
  let ?p = "joinpath e root fname"
  let ?st0 = "log_event (ProcessFile ?p (Some (nt, counts))) st"
  from process_file_text [OF processed(2)] obtain raw where
    raw: "files st ?p = Some raw" "read_text (files st) ?p = Some (universal_newlines raw)"
      "nt = fst (apply_rules rs (universal_newlines raw))"
    by blast
  from raw_events [OF processed(3)] obtain evs where
    tr: "trace st1 = trace ?st0 @ evs"
    and wr: "\<forall>q t. Write q t \<in> set evs \<longrightarrow>
              apply_arg args \<and> q = ?p \<and> t = nt \<and>
              (\<exists>cur. read_text (files ?st0) ?p = Some cur \<and> nt \<noteq> cur)"
    and wd: "writes_differ e (files ?st0) evs"
    and da: "r1 = None \<longrightarrow> disk_after e (files ?st0) evs = files st1"
    by blast
  have f0: "files ?st0 = files st" and t0: "trace ?st0 = trace st @ [ProcessFile ?p (Some (nt, counts))]"
    by (simp_all add: log_event_def)
  let ?evs = "ProcessFile ?p (Some (nt, counts)) # evs"
  from assms processed(5) have st': "trace st' = trace st1"
    and fl: "r = None \<longrightarrow> r1 = None \<and> files st' = files st1"
    by (auto split: if_splits)
  have "trace st' = trace st @ ?evs"
    using st' tr t0 by simp
  moreover have "\<forall>q t. Write q t \<in> set ?evs \<longrightarrow>
              apply_arg args \<and> q = ?p \<and>
              (\<exists>raw. files st q = Some raw \<and>
                 t = fst (apply_rules rs (universal_newlines raw)) \<and>
                 t \<noteq> universal_newlines raw)"
    using wr raw f0 by auto
  moreover have "writes_differ e (files st) ?evs"
    using wd f0 by simp
  moreover have "r = None \<longrightarrow> disk_after e (files st) ?evs = files st'"
    using da fl f0 by simp
  ultimately show ?thesis by blast
qed

lemma disk_inv_log:
  assumes "disk_inv e fs (st, None)" and "\<forall>q t. ev \<noteq> Write q t"
  shows "disk_inv e fs (log_event ev st, None)"
proof -
  from assms(2) have "writes_differ e fs' [ev]" and "disk_after e fs' [ev] = fs'" for fs'
    by (cases ev; simp)+
  with assms(1) show ?thesis
    by (simp add: disk_inv_def log_event_def writes_differ_append disk_after_append)
qed

lemma file_step_disk_inv:
  assumes "disk_inv e fs (st, None)"
  shows "disk_inv e fs (file_step e args settings rs root fname st)"
proof -
  obtain st' r where s: "file_step e args settings rs root fname st = (st', r)"
    by (cases "file_step e args settings rs root fname st")
  from file_step_events [OF s] obtain evs where
    "trace st' = trace st @ evs" "writes_differ e (files st) evs"
    "r = None \<longrightarrow> disk_after e (files st) evs = files st'"
    by blast
  with assms show ?thesis
    by (simp add: s disk_inv_def writes_differ_append disk_after_append)
qed

lemma walk_step_disk_inv:
  assumes "disk_inv e fs (st, None)"
  shows "disk_inv e fs (walk_step e args settings rs entry st)"
proof -
  obtain root fnames where entry: "entry = (root, fnames)"
    by (cases entry)
  have "disk_inv e fs (for_each (file_step e args settings rs root) fnames st)"
    using file_step_disk_inv assms by (rule for_each_inv)
  then show ?thesis
    by (simp add: walk_step_def entry)
qed

lemma dir_step_disk_inv:
  assumes "disk_inv e fs (st, None)"
  shows "disk_inv e fs (dir_step e args settings rs rel_dir st)"
proof -
  define base where "base = joinpath e (cwd e) rel_dir"
  have i1: "disk_inv e fs (log_event (IsDir base) st, None)"
    using assms by (rule disk_inv_log) simp
  then have i2: "disk_inv e fs (log_event (Walk base) (log_event (IsDir base) st), None)"
    by (rule disk_inv_log) simp
  have "disk_inv e fs (for_each (walk_step e args settings rs) (walk e base)
          (log_event (Walk base) (log_event (IsDir base) st)))"
    using walk_step_disk_inv i2 by (rule for_each_inv)
  with i1 show ?thesis
    by (simp add: dir_step_def base_def [symmetric] Let_def)
qed

lemma main_disk_inv: "disk_inv e fs (main e args fs)"
proof -
  have i0: "disk_inv e fs (start fs, r)" for r
    by (simp add: disk_inv_def start_def)
  have i1: "disk_inv e fs (log_event (LoadConfig (config args)) (start fs), r)" for r
    by (simp add: disk_inv_def start_def log_event_def)
  show ?thesis
  proof (cases "load_config e (config args)")
    case (Inl err)
    with i0 i1 show ?thesis by (simp add: main_def Let_def)
  next
    case (Inr res)
    obtain settings rs where res: "res = (settings, rs)"
      by (cases res)
    let ?st0 = "log_event (LoadConfig (config args)) (start fs)\<lparr>total_counts := init_totals rs []\<rparr>"
    have "disk_inv e fs (?st0, None)"
      by (simp add: disk_inv_def start_def log_event_def)
    with dir_step_disk_inv
    have l: "disk_inv e fs (for_each (dir_step e args settings rs) (directories settings) ?st0)"
      by (rule for_each_inv)
    obtain st1 r1 where f: "for_each (dir_step e args settings rs) (directories settings) ?st0 = (st1, r1)"
      by (cases "for_each (dir_step e args settings rs) (directories settings) ?st0")
    from l f have "disk_inv e fs (print (summary (total_counts st1)) st1, r1)"
      by (simp add: disk_inv_def print_def)
    with l f i0 i1 Inr res show ?thesis
      by (cases r1) (simp_all add: main_def Let_def)
  qed
qed


subsection \<open>The example runs\<close>

lemma alias_example:
  "apply_rules [alias_rule] alias_text =
     (''comptime Foo = Int'' @ [CHR 0x0A] @ ''comptime Bar = Int'' @ [CHR 0x0A], [(''x'', 2)])"
  by (simp add: apply_rules_def alias_rule_def alias_text_def rule_step_def str_count_def
      str_replace_def)

lemma alias_split:
  "leftmost_split ''alias '' alias_text ['''', ''Foo = Int'' @ [CHR 0x0A], ''Bar = Int'' @ [CHR 0x0A]]"
  by (simp add: leftmost_split_def alias_text_def sublist_Cons_right)

lemmas run_defs = main_def load_config_def load_doc_def load_item_def dir_step_def walk_step_def
  file_step_def report_and_write_def process_file_def add_counts.simps init_totals.simps
  log_event_def print_def start_def summary_def is_dir_def ext_of_def path_suffix_def
  rfind_def lstrip_def rule_step_def str_count_def str_replace_def dict_get_def
  read_text_def write_text_def native_newlines_def
  ex_env_def ex_fs_def ex_args_def ex_doc_def alias_text_def Let_def

lemma ex_load: "load_config ex_env ''c.toml'' =
   Inr (\<lparr>include_extensions = [''mojo''], directories = [''src'', ''gone'']\<rparr>, [alias_rule])"
  by (simp add: load_config_def load_doc_def load_item_def ex_env_def ex_doc_def alias_rule_def)

lemma ex_load': "load_config ex_env (config (ex_args d a)) = Inr (ex_settings, [alias_rule])"
  by (simp add: ex_load ex_args_def ex_settings_def)

lemma ex_run_dry:
  "snd (main ex_env (ex_args True False) ex_fs) = None"
  "stdout (fst (main ex_env (ex_args True False) ex_fs)) =
     [FileHeader ''src/a.mojo'', FileCount ''x'' 2, SummaryHeader, SummaryCount ''x'' 2]"
  "total_counts (fst (main ex_env (ex_args True False) ex_fs)) = [(''x'', 2)]"
  "files (fst (main ex_env (ex_args True False) ex_fs)) = ex_fs"
  by (simp_all add: run_defs)

lemma ex_run_dry_trace:
  "trace (fst (main ex_env (ex_args True False) ex_fs)) =
     [LoadConfig ''c.toml'', IsDir ''/r/src'', Walk ''/r/src'',
      ProcessFile ''/r/src/a.mojo''
        (Some (''comptime Foo = Int'' @ [CHR 0x0A] @ ''comptime Bar = Int'' @ [CHR 0x0A], [(''x'', 2)])),
      IsDir ''/r/gone'']"
  by (simp add: run_defs)

lemma ex_run_both:
  "snd (main ex_env (ex_args True True) ex_fs) = None"
  "files (fst (main ex_env (ex_args True True) ex_fs)) ''/r/src/a.mojo'' =
     Some (''comptime Foo = Int'' @ [CHR 0x0A] @ ''comptime Bar = Int'' @ [CHR 0x0A])"
  "trace (fst (main ex_env (ex_args True True) ex_fs)) =
     [LoadConfig ''c.toml'', IsDir ''/r/src'', Walk ''/r/src'',
      ProcessFile ''/r/src/a.mojo''
        (Some (''comptime Foo = Int'' @ [CHR 0x0A] @ ''comptime Bar = Int'' @ [CHR 0x0A], [(''x'', 2)])),
      Reread ''/r/src/a.mojo'',
      Write ''/r/src/a.mojo'' (''comptime Foo = Int'' @ [CHR 0x0A] @ ''comptime Bar = Int'' @ [CHR 0x0A]),
      IsDir ''/r/gone'']"
  by (simp_all add: run_defs)

lemma ex_step_apply:
  "files (fst (file_step ex_env (ex_args False True) ex_settings [alias_rule] ''/r/src'' ''a.mojo''
     (start ex_fs))) ''/r/src/a.mojo'' =
     Some (''comptime Foo = Int'' @ [CHR 0x0A] @ ''comptime Bar = Int'' @ [CHR 0x0A])"
  by (simp add: run_defs ex_settings_def alias_rule_def)

lemma read_text_example:
  "read_text [''f'' \<mapsto> ''a'' @ [CHR 0x0D, CHR 0x0A] @ ''b'' @ [CHR 0x0D] @ ''c''] ''f'' =
     Some (''a'' @ [CHR 0x0A] @ ''b'' @ [CHR 0x0A] @ ''c'')"
  by (simp add: read_text_def)

lemma ex_step_apply_trace:
  "trace (fst (file_step ex_env (ex_args False True) ex_settings [alias_rule] ''/r/src'' ''a.mojo''
     (start ex_fs))) =
     [ProcessFile ''/r/src/a.mojo''
        (Some (''comptime Foo = Int'' @ [CHR 0x0A] @ ''comptime Bar = Int'' @ [CHR 0x0A],
               [(''x'', 2)])),
      Reread ''/r/src/a.mojo'',
      Write ''/r/src/a.mojo'' (''comptime Foo = Int'' @ [CHR 0x0A] @ ''comptime Bar = Int'' @ [CHR 0x0A])]"
  by (simp add: run_defs ex_settings_def alias_rule_def)

lemma ex_step_dry:
  "file_step ex_env (ex_args True False) ex_settings [alias_rule] ''/r/src'' ''a.mojo''
     (start ex_fs\<lparr>total_counts := [(''x'', 0)]\<rparr>) =
   (\<lparr>files = ex_fs,
     stdout = [FileHeader ''src/a.mojo'', FileCount ''x'' 2],
     total_counts = [(''x'', 2)],
     trace = [ProcessFile ''/r/src/a.mojo''
        (Some (''comptime Foo = Int'' @ [CHR 0x0A] @ ''comptime Bar = Int'' @ [CHR 0x0A],
               [(''x'', 2)]))]\<rparr>, None)"
  by (simp add: run_defs ex_settings_def alias_rule_def)

section \<open>The claims\<close>

subsection \<open>C1: both flags\<close>

text \<open>
  Claim C1 says that a command line with both \<^verbatim>\<open>--dry-run\<close> and \<^verbatim>\<open>--apply\<close> is a
  usage error raised before the configuration file is read. The check of line 90 only
  refuses a command line with neither flag. With both flags the example run loads the
  configuration, ends with exit status 0 and has overwritten \<^verbatim>\<open>src/a.mojo\<close>, although the
  help text of \<^verbatim>\<open>--dry-run\<close> promises a run without writing.
\<close>

theorem both_flags_run_in_apply_mode:
  "snd (main ex_env (ex_args True True) ex_fs) = None
   \<and> exit_status (snd (main ex_env (ex_args True True) ex_fs)) = 0
   \<and> hd (trace (fst (main ex_env (ex_args True True) ex_fs))) = LoadConfig ''c.toml''
   \<and> ex_fs ''/r/src/a.mojo'' = Some alias_text
   \<and> files (fst (main ex_env (ex_args True True) ex_fs)) ''/r/src/a.mojo'' =
        Some (''comptime Foo = Int'' @ [CHR 0x0A] @ ''comptime Bar = Int'' @ [CHR 0x0A])"
  by (simp add: ex_run_both) (simp add: ex_fs_def)

subsection \<open>C2: a rule with an empty search string\<close>

text \<open>
  Claim C2 says that a rule with the empty search string matches nothing, leaves the text
  as it is and records the count 0. The program does not treat the empty string apart:
  \<^verbatim>\<open>"ab".count("")\<close> is 3 and \<^verbatim>\<open>"ab".replace("", "-")\<close> is \<^verbatim>\<open>"-a-b-"\<close>.
\<close>

theorem empty_search_counterexample:
  "apply_rules [\<lparr>name = ''x'', search = [], replace = ''-''\<rparr>] ''ab'' = (''-a-b-'', [(''x'', 3)])
   \<and> apply_rules [\<lparr>name = ''x'', search = [], replace = ''-''\<rparr>] ''ab'' \<noteq> (''ab'', [(''x'', 0)])"
  by (simp add: apply_rules_def rule_step_def str_count_def str_replace_def)

text \<open>
  Claim C2, amended: for every text and every rule whose search string is empty, the
  recorded count is the length of the text plus one, and the returned text is the input
  with the replace string put in front of every character and at the end (so the text
  comes back unchanged exactly when the replace string is empty too).
\<close>

theorem empty_search_interleaves:
  "rule_step \<lparr>name = n, search = [], replace = new\<rparr> (text, counts) =
     (new @ concat (map (\<lambda>c. c # new) text), dict_set n (length text + 1) counts)
   \<and> apply_rules [\<lparr>name = n, search = [], replace = new\<rparr>] text =
     (new @ concat (map (\<lambda>c. c # new) text), [(n, length text + 1)])"
  by (simp add: apply_rules_def rule_step_def str_count_def str_replace_def)

theorem empty_search_interleaves_witness:
  "apply_rules [\<lparr>name = ''unnamed'', search = [], replace = []\<rparr>] ''ab'' = (''ab'', [(''unnamed'', 3)])"
  using empty_search_interleaves [of "''unnamed''" "[]" "''ab''" "[]"] by simp

subsection \<open>C3: the rules are applied in order\<close>

text \<open>
  Claim C3: the rule applier works through the rules in the given order on the current
  text. The result of the first \<open>i + 1\<close> rules is one step from the result of the first
  \<open>i\<close> rules: the count recorded under the name of rule \<open>i\<close> is what \<^verbatim>\<open>str.count\<close> finds
  in the text left by the rules before it, and \<^verbatim>\<open>str.replace\<close> rewrites that text. For a
  search string that is not empty, that count is the number of cuts of the leftmost
  split of the text into non-overlapping occurrences, and the new text is the pieces of
  that split with the replace string between them, so every such occurrence is
  replaced. The final counts hold an entry for every rule name, a zero count included.
\<close>

theorem rules_applied_in_order:
  "fst (apply_rules rules text) = text_after rules text
   \<and> (\<forall>i < length rules.
        apply_rules (take (Suc i) rules) text =
          (str_replace (text_after (take i rules) text) (search (rules ! i)) (replace (rules ! i)),
           dict_set (name (rules ! i))
             (str_count (text_after (take i rules) text) (search (rules ! i)))
             (snd (apply_rules (take i rules) text))))
   \<and> (\<forall>i < length rules. search (rules ! i) \<noteq> [] \<longrightarrow>
        (\<exists>segs. leftmost_split (search (rules ! i)) (text_after (take i rules) text) segs \<and>
           str_count (text_after (take i rules) text) (search (rules ! i)) = length segs - 1 \<and>
           str_replace (text_after (take i rules) text) (search (rules ! i)) (replace (rules ! i)) =
             join (replace (rules ! i)) segs))
   \<and> fst ` set (snd (apply_rules rules text)) = name ` set rules"
proof (intro conjI allI impI)
  show "fst (apply_rules rules text) = text_after rules text"
    by (simp add: apply_rules_def fst_rule_loop)
next
  fix i assume "i < length rules"
  then have "take (Suc i) rules = take i rules @ [rules ! i]"
    by (simp add: take_Suc_conv_app_nth)
  then show "apply_rules (take (Suc i) rules) text =
          (str_replace (text_after (take i rules) text) (search (rules ! i)) (replace (rules ! i)),
           dict_set (name (rules ! i))
             (str_count (text_after (take i rules) text) (search (rules ! i)))
             (snd (apply_rules (take i rules) text)))"
    by (simp add: apply_rules_def rule_loop_snoc)
next
  fix i assume "search (rules ! i) \<noteq> []"
  then show "\<exists>segs. leftmost_split (search (rules ! i)) (text_after (take i rules) text) segs \<and>
           str_count (text_after (take i rules) text) (search (rules ! i)) = length segs - 1 \<and>
           str_replace (text_after (take i rules) text) (search (rules ! i)) (replace (rules ! i)) =
             join (replace (rules ! i)) segs"
    by (rule str_segments)
next
  show "fst ` set (snd (apply_rules rules text)) = name ` set rules"
    by (simp add: apply_rules_def keys_rule_loop)
qed

theorem rules_applied_in_order_witness:
  "(0::nat) < length [alias_rule]
   \<and> search ([alias_rule] ! 0) \<noteq> []
   \<and> apply_rules (take (Suc 0) [alias_rule]) alias_text =
       (''comptime Foo = Int'' @ [CHR 0x0A] @ ''comptime Bar = Int'' @ [CHR 0x0A], [(''x'', 2)])
   \<and> leftmost_split ''alias '' alias_text ['''', ''Foo = Int'' @ [CHR 0x0A], ''Bar = Int'' @ [CHR 0x0A]]
   \<and> fst ` set (snd (apply_rules [alias_rule] alias_text)) = {''x''}"
  using rules_applied_in_order [of "[alias_rule]" alias_text] alias_example alias_split
  by (simp add: alias_rule_def)

subsection \<open>C4: writes happen only in apply mode\<close>

text \<open>
  Claim C4: a run with \<^verbatim>\<open>--dry-run\<close> and without \<^verbatim>\<open>--apply\<close> ends, whether normally or
  by an error, with the file contents it started from. A write in the trace of any run
  means that \<^verbatim>\<open>--apply\<close> was given, and every write of the run, taken in order from
  the files at the start, writes a text that differs from what reading the file at that
  moment returns. The calls that the step for one file adds to the trace hold a write
  only in apply mode, only to that file, and only of a new text that differs from the
  text read from the file. When the step changes the file contents, only that file has
  changed and it holds what \<^verbatim>\<open>write_text\<close> stores for the new text.
\<close>

theorem writes_only_in_apply_mode:
  "(dry_run args \<and> \<not> apply_arg args \<longrightarrow> files (fst (main e args fs)) = fs)
   \<and> (\<forall>p t. Write p t \<in> set (trace (fst (main e args fs))) \<longrightarrow> apply_arg args)
   \<and> writes_differ e fs (trace (fst (main e args fs)))
   \<and> (\<exists>evs. trace (fst (file_step e args settings rs root fname st)) = trace st @ evs \<and>
        (\<forall>q t. Write q t \<in> set evs \<longrightarrow>
           apply_arg args \<and> q = joinpath e root fname \<and>
           (\<exists>raw. files st q = Some raw \<and>
              t = fst (apply_rules rs (universal_newlines raw)) \<and>
              t \<noteq> universal_newlines raw)))
   \<and> (files (fst (file_step e args settings rs root fname st)) \<noteq> files st \<longrightarrow>
        apply_arg args \<and>
        (\<exists>raw. files st (joinpath e root fname) = Some raw \<and>
           fst (apply_rules rs (universal_newlines raw)) \<noteq> universal_newlines raw \<and>
           files (fst (file_step e args settings rs root fname st)) =
             write_text e (files st) (joinpath e root fname)
               (fst (apply_rules rs (universal_newlines raw)))))"
proof (intro conjI allI impI)
  assume "dry_run args \<and> \<not> apply_arg args"
  then show "files (fst (main e args fs)) = fs"
    using main_untouched [of args fs e] by (simp add: untouched_def)
next
  fix p t
  assume "Write p t \<in> set (trace (fst (main e args fs)))"
  then show "apply_arg args"
    using main_untouched [of args fs e] by (auto simp: untouched_def)
next
  show "writes_differ e fs (trace (fst (main e args fs)))"
    using main_disk_inv [of e fs args] by (simp add: disk_inv_def case_prod_unfold)
next
  obtain st' r where s: "file_step e args settings rs root fname st = (st', r)"
    by (cases "file_step e args settings rs root fname st")
  from file_step_events [OF s]
  show "\<exists>evs. trace (fst (file_step e args settings rs root fname st)) = trace st @ evs \<and>
        (\<forall>q t. Write q t \<in> set evs \<longrightarrow>
           apply_arg args \<and> q = joinpath e root fname \<and>
           (\<exists>raw. files st q = Some raw \<and>
              t = fst (apply_rules rs (universal_newlines raw)) \<and>
              t \<noteq> universal_newlines raw))"
    by (simp add: s) blast
next
  assume ch: "files (fst (file_step e args settings rs root fname st)) \<noteq> files st"
  then show "apply_arg args"
    using file_step_dry_files [of args e settings rs root fname st] by blast
  show "\<exists>raw. files st (joinpath e root fname) = Some raw \<and>
           fst (apply_rules rs (universal_newlines raw)) \<noteq> universal_newlines raw \<and>
           files (fst (file_step e args settings rs root fname st)) =
             write_text e (files st) (joinpath e root fname)
               (fst (apply_rules rs (universal_newlines raw)))"
  proof (cases rule: file_step_cases [of fname settings e args rs root st])
    case skip
    with ch show ?thesis by simp
  next
    case (unreadable err)
    with ch show ?thesis by (simp add: log_event_def)
  next
    case (processed nt counts st1 r1 tot r2)
    let ?st0 = "log_event (ProcessFile (joinpath e root fname) (Some (nt, counts))) st"
    have f0: "files ?st0 = files st"
      by (simp add: log_event_def)
    from processed(5) have f1: "files (fst (file_step e args settings rs root fname st)) = files st1"
      by simp
    with ch f0 processed(3) have "files (fst (report_and_write e args (joinpath e root fname) nt counts ?st0))
        \<noteq> files ?st0"
      by simp
    from raw_files_change [OF this] f0 processed(3) obtain cur where
      cur: "read_text (files st) (joinpath e root fname) = Some cur" "nt \<noteq> cur"
      and upd: "files st1 = write_text e (files st) (joinpath e root fname) nt"
      by auto
    from process_file_text [OF processed(2)] obtain raw where
      raw: "files st (joinpath e root fname) = Some raw"
        "read_text (files st) (joinpath e root fname) = Some (universal_newlines raw)"
        "nt = fst (apply_rules rs (universal_newlines raw))"
      by blast
    with cur upd f1 show ?thesis by simp
  qed
qed

theorem writes_only_in_apply_mode_witness:
  "dry_run (ex_args True False) \<and> \<not> apply_arg (ex_args True False)
   \<and> files (fst (main ex_env (ex_args True False) ex_fs)) = ex_fs
   \<and> Write ''/r/src/a.mojo'' (''comptime Foo = Int'' @ [CHR 0x0A] @ ''comptime Bar = Int'' @ [CHR 0x0A])
        \<in> set (trace (fst (main ex_env (ex_args True True) ex_fs)))
   \<and> apply_arg (ex_args True True)
   \<and> writes_differ ex_env ex_fs (trace (fst (main ex_env (ex_args True True) ex_fs)))
   \<and> trace (fst (file_step ex_env (ex_args False True) ex_settings [alias_rule] ''/r/src'' ''a.mojo''
        (start ex_fs))) =
       trace (start ex_fs) @
       [ProcessFile ''/r/src/a.mojo''
          (Some (''comptime Foo = Int'' @ [CHR 0x0A] @ ''comptime Bar = Int'' @ [CHR 0x0A],
                 [(''x'', 2)])),
        Reread ''/r/src/a.mojo'',
        Write ''/r/src/a.mojo'' (''comptime Foo = Int'' @ [CHR 0x0A] @ ''comptime Bar = Int'' @ [CHR 0x0A])]
   \<and> files (start ex_fs) ''/r/src/a.mojo'' = Some alias_text
   \<and> ''comptime Foo = Int'' @ [CHR 0x0A] @ ''comptime Bar = Int'' @ [CHR 0x0A] \<noteq>
        universal_newlines alias_text
   \<and> files (fst (file_step ex_env (ex_args False True) ex_settings [alias_rule] ''/r/src'' ''a.mojo''
        (start ex_fs))) \<noteq> files (start ex_fs)
   \<and> apply_arg (ex_args False True)"
proof -
  let ?new = "''comptime Foo = Int'' @ [CHR 0x0A] @ ''comptime Bar = Int'' @ [CHR 0x0A]"
  let ?step = "file_step ex_env (ex_args False True) ex_settings [alias_rule] ''/r/src'' ''a.mojo''
        (start ex_fs)"
  have a: "dry_run (ex_args True False) \<and> \<not> apply_arg (ex_args True False)"
    by (simp add: ex_args_def)
  have b: "files (fst ?step) \<noteq> files (start ex_fs)"
  proof
    assume "files (fst ?step) = files (start ex_fs)"
    then have "files (fst ?step) ''/r/src/a.mojo'' = files (start ex_fs) ''/r/src/a.mojo''"
      by simp
    then show False
      by (simp add: ex_step_apply) (simp add: start_def ex_fs_def alias_text_def)
  qed
  have w: "Write ''/r/src/a.mojo'' ?new \<in> set (trace (fst (main ex_env (ex_args True True) ex_fs)))"
    by (simp add: ex_run_both(3))
  have f: "files (start ex_fs) ''/r/src/a.mojo'' = Some alias_text"
    by (simp add: start_def ex_fs_def)
  have j: "joinpath ex_env ''/r/src'' ''a.mojo'' = ''/r/src/a.mojo''"
    by (simp add: ex_env_def)
  from writes_only_in_apply_mode [of "ex_args True False" ex_env ex_fs] a
  have c1: "files (fst (main ex_env (ex_args True False) ex_fs)) = ex_fs"
    by blast
  note both = writes_only_in_apply_mode [of "ex_args True True" ex_env ex_fs]
  from both w have c2: "apply_arg (ex_args True True)"
    by blast
  from both have c3: "writes_differ ex_env ex_fs (trace (fst (main ex_env (ex_args True True) ex_fs)))"
    by blast
  note step = writes_only_in_apply_mode [of "ex_args False True" ex_env _ ex_settings "[alias_rule]"
      "''/r/src''" "''a.mojo''" "start ex_fs"]
  from step obtain evs where
    evs: "trace (fst ?step) = trace (start ex_fs) @ evs"
    and wr: "\<forall>q t. Write q t \<in> set evs \<longrightarrow>
           apply_arg (ex_args False True) \<and> q = joinpath ex_env ''/r/src'' ''a.mojo'' \<and>
           (\<exists>raw. files (start ex_fs) q = Some raw \<and>
              t = fst (apply_rules [alias_rule] (universal_newlines raw)) \<and>
              t \<noteq> universal_newlines raw)"
    by blast
  have t0: "trace (start ex_fs) = []"
    by (simp add: start_def)
  from evs have e: "evs = [ProcessFile ''/r/src/a.mojo'' (Some (?new, [(''x'', 2)])),
        Reread ''/r/src/a.mojo'', Write ''/r/src/a.mojo'' ?new]"
    unfolding ex_step_apply_trace t0 by simp
  then have "Write ''/r/src/a.mojo'' ?new \<in> set evs"
    by simp
  with wr have "apply_arg (ex_args False True) \<and>
      ''/r/src/a.mojo'' = joinpath ex_env ''/r/src'' ''a.mojo'' \<and>
      (\<exists>raw. files (start ex_fs) ''/r/src/a.mojo'' = Some raw \<and>
         ?new = fst (apply_rules [alias_rule] (universal_newlines raw)) \<and>
         ?new \<noteq> universal_newlines raw)"
    by blast
  then obtain raw where c4: "apply_arg (ex_args False True)"
    and r1: "files (start ex_fs) ''/r/src/a.mojo'' = Some raw"
    and r2: "?new \<noteq> universal_newlines raw"
    by blast
  from r1 f have "raw = alias_text"
    by simp
  with r2 have c5: "?new \<noteq> universal_newlines alias_text"
    by simp
  from evs e have c6: "trace (fst ?step) = trace (start ex_fs) @
       [ProcessFile ''/r/src/a.mojo'' (Some (?new, [(''x'', 2)])),
        Reread ''/r/src/a.mojo'', Write ''/r/src/a.mojo'' ?new]"
    by simp
  from step b have c7: "apply_arg (ex_args False True)"
    by blast
  show ?thesis
    by (intro conjI a [THEN conjunct1] a [THEN conjunct2] c1 w c2 c3 c6 f c5 b c7)
qed

subsection \<open>C5: the totals are the sums of the counts per file\<close>

text \<open>
  Claim C5: the invariant \<open>totals_inv\<close> (the total of every rule name is the sum of the
  counts that the calls of \<^verbatim>\<open>process_file\<close> so far returned for it) is kept by every
  completed iteration of the loop over the files, from any state. It holds for the state
  at the end of a run that completes, whose output ends with the summary of these
  totals.
\<close>

theorem totals_are_sums:
  assumes "load_config e (config args) = Inr (settings, replacements)"
  shows "(\<forall>st st' root fname.
            totals_inv replacements st \<longrightarrow>
            file_step e args settings replacements root fname st = (st', None) \<longrightarrow>
            totals_inv replacements st')
       \<and> (\<forall>st. main e args fs = (st, None) \<longrightarrow>
            totals_inv replacements st \<and>
            (\<exists>out. stdout st = out @ summary (total_counts st)))"
proof (intro conjI allI impI)
  fix st st' root fname
  assume "totals_inv replacements st"
    and "file_step e args settings replacements root fname st = (st', None)"
  then show "totals_inv replacements st'"
    by (rule file_step_totals)
next
  fix st
  assume m: "main e args fs = (st, None)"
  define st0 where
    "st0 = log_event (LoadConfig (config args)) (start fs) \<lparr>total_counts := init_totals replacements []\<rparr>"
  from m assms obtain st1 where
    loop: "for_each (dir_step e args settings replacements) (directories settings) st0 = (st1, None)"
    and st: "st = print (summary (total_counts st1)) st1"
    by (auto simp: main_def Let_def st0_def split: if_splits prod.splits option.splits)
  have "totals_inv replacements st1"
    using dirs_loop_totals [OF _ loop] totals_inv_init by (simp add: st0_def)
  then show "totals_inv replacements st"
    by (simp add: st print_def totals_inv_def)
  show "\<exists>out. stdout st = out @ summary (total_counts st)"
    by (simp add: st print_def)
qed

theorem totals_are_sums_witness:
  "load_config ex_env (config (ex_args True False)) = Inr (ex_settings, [alias_rule])
   \<and> totals_inv [alias_rule] (start ex_fs\<lparr>total_counts := [(''x'', 0)]\<rparr>)
   \<and> totals_inv [alias_rule]
        (fst (file_step ex_env (ex_args True False) ex_settings [alias_rule] ''/r/src'' ''a.mojo''
           (start ex_fs\<lparr>total_counts := [(''x'', 0)]\<rparr>)))
   \<and> main ex_env (ex_args True False) ex_fs = (fst (main ex_env (ex_args True False) ex_fs), None)
   \<and> totals_inv [alias_rule] (fst (main ex_env (ex_args True False) ex_fs))
   \<and> total_counts (fst (main ex_env (ex_args True False) ex_fs)) = [(''x'', 2)]
   \<and> file_counts (trace (fst (main ex_env (ex_args True False) ex_fs))) = [[(''x'', 2)]]"
proof -
  have m: "main ex_env (ex_args True False) ex_fs = (fst (main ex_env (ex_args True False) ex_fs), None)"
    using ex_run_dry(1) by (metis prod.collapse)
  have i: "totals_inv [alias_rule] (start ex_fs\<lparr>total_counts := [(''x'', 0)]\<rparr>)"
    by (simp add: totals_inv_def start_def alias_rule_def dict_get_def)
  note t = totals_are_sums [OF ex_load', of True False ex_fs]
  from t m have a: "totals_inv [alias_rule] (fst (main ex_env (ex_args True False) ex_fs))"
    by blast
  from t i ex_step_dry have b: "totals_inv [alias_rule]
        (fst (file_step ex_env (ex_args True False) ex_settings [alias_rule] ''/r/src'' ''a.mojo''
           (start ex_fs\<lparr>total_counts := [(''x'', 0)]\<rparr>)))"
    by (metis fst_conv)
  from m i a b show ?thesis
    by (simp add: ex_load' ex_run_dry(3) ex_run_dry_trace)
qed

subsection \<open>C6: no directories\<close>

text \<open>
  Claim C6: when the flags are accepted and the loaded document has no \<^verbatim>\<open>[settings]\<close>
  table, no \<^verbatim>\<open>directories\<close> key or an empty \<^verbatim>\<open>directories\<close> list, the loaded list of
  directories is empty and the run ends with \<^verbatim>\<open>SystemExit\<close> and exit status 1. Up to
  then it has read the configuration file and nothing else: no directory was tested or
  walked, no file was read or written and nothing was printed.
\<close>

theorem empty_directories_fail_fast:
  assumes "dry_run args \<or> apply_arg args"
    and "read_toml e (config args) = Some data"
    and "doc_settings data = None
         \<or> (\<exists>t. doc_settings data = Some t \<and> (tbl_directories t = None \<or> tbl_directories t = Some []))"
  shows "directories (fst (load_doc data)) = []
    \<and> main e args fs =
        (\<lparr>files = fs, stdout = [], total_counts = [], trace = [LoadConfig (config args)]\<rparr>,
         Some (SystemExit ''No directories specified in [settings.directories]''))
    \<and> exit_status (snd (main e args fs)) = 1"
proof -
  from assms(3) have d: "directories (fst (load_doc data)) = []"
    by (auto simp: load_doc_def Let_def)
  obtain settings rs where l: "load_doc data = (settings, rs)"
    by (cases "load_doc data")
  with d have "directories settings = []" by simp
  with assms(1,2) l have "main e args fs =
        (\<lparr>files = fs, stdout = [], total_counts = [], trace = [LoadConfig (config args)]\<rparr>,
         Some (SystemExit ''No directories specified in [settings.directories]''))"
    by (auto simp: main_def load_config_def Let_def log_event_def start_def)
  with d show ?thesis by simp
qed

theorem empty_directories_fail_fast_witness:
  "dry_run (ex_args True False)
   \<and> read_toml no_dirs_env (config (ex_args True False)) =
        Some \<lparr>doc_settings = None, doc_replacements = None\<rparr>
   \<and> main no_dirs_env (ex_args True False) ex_fs =
        (\<lparr>files = ex_fs, stdout = [], total_counts = [], trace = [LoadConfig ''c.toml'']\<rparr>,
         Some (SystemExit ''No directories specified in [settings.directories]''))"
proof -
  have a: "dry_run (ex_args True False) \<or> apply_arg (ex_args True False)"
    by (simp add: ex_args_def)
  have b: "read_toml no_dirs_env (config (ex_args True False)) =
        Some \<lparr>doc_settings = None, doc_replacements = None\<rparr>"
    by (simp add: no_dirs_env_def)
  have c: "doc_settings \<lparr>doc_settings = None, doc_replacements = None\<rparr> = None
         \<or> (\<exists>t. doc_settings \<lparr>doc_settings = None, doc_replacements = None\<rparr> = Some t
              \<and> (tbl_directories t = None \<or> tbl_directories t = Some []))"
    by simp
  from empty_directories_fail_fast [OF a b c, of ex_fs] a b show ?thesis
    by (simp add: ex_args_def)
qed

subsection \<open>C7: directories that do not exist\<close>



subsection \<open>C8: the extension filter\<close>

text \<open>
  Claim C8 takes the extension to be the text after the last dot of the name. For the
  file \<^verbatim>\<open>.mojo\<close> that text is \<^verbatim>\<open>mojo\<close>, an included extension, but \<^verbatim>\<open>pathlib\<close> gives a
  name whose only dot is its first character no suffix, and the program skips the file.
\<close>

theorem extension_filter_counterexample:
  "spec_extension ''.mojo'' = ''mojo''
   \<and> ''mojo'' \<in> set (include_extensions ex_settings)
   \<and> file_step ex_env (ex_args True False) ex_settings [alias_rule] ''/r/src'' ''.mojo''
        (start ex_fs) = (start ex_fs, None)"
  by (simp add: spec_extension_def ex_settings_def file_step_def ext_of_def path_suffix_def
      rfind_def lstrip_def)

text \<open>
  Claim C8, amended: a file is processed if and only if its extension is a member of
  \<^verbatim>\<open>include_extensions\<close>, compared as it is written, where the extension is the text
  after the last dot of the name, except that it is empty for a name whose only dot is
  its first character (as it is for a name without a dot).
\<close>

theorem extension_filter:
  "(ext_of fname \<in> set (include_extensions settings) \<longrightarrow>
      (\<exists>r evs. trace (fst (file_step e args settings rs root fname st)) =
         trace st @ ProcessFile (joinpath e root fname) r # evs))
   \<and> (ext_of fname \<notin> set (include_extensions settings) \<longrightarrow>
        file_step e args settings rs root fname st = (st, None))
   \<and> ext_of fname =
        (if \<exists>b. fname = CHR ''.'' # b \<and> CHR ''.'' \<notin> set b then [] else spec_extension fname)"
proof (intro conjI impI)
  assume inc: "ext_of fname \<in> set (include_extensions settings)"
  show "\<exists>r evs. trace (fst (file_step e args settings rs root fname st)) =
         trace st @ ProcessFile (joinpath e root fname) r # evs"
  proof (cases rule: file_step_cases [of fname settings e args rs root st])
    case skip
    with inc show ?thesis by simp
  next
    case (unreadable err)
    then show ?thesis by (simp add: log_event_def)
  next
    case (processed nt counts st1 r1 tot r2)
    from raw_trace [of e args "joinpath e root fname" nt counts
        "log_event (ProcessFile (joinpath e root fname) (Some (nt, counts))) st"] processed(3)
    obtain evs where "trace st1 = trace st @ ProcessFile (joinpath e root fname) (Some (nt, counts)) # evs"
      by (auto simp: log_event_def)
    with processed(5) show ?thesis by auto
  qed
next
  assume "ext_of fname \<notin> set (include_extensions settings)"
  then show "file_step e args settings rs root fname st = (st, None)"
    by (simp add: file_step_def)
next
  show "ext_of fname =
        (if \<exists>b. fname = CHR ''.'' # b \<and> CHR ''.'' \<notin> set b then [] else spec_extension fname)"
    by (rule ext_of_char)
qed

theorem extension_filter_witness:
  "ext_of ''a.mojo'' \<in> set (include_extensions ex_settings)
   \<and> trace (fst (file_step ex_env (ex_args True False) ex_settings [alias_rule] ''/r/src'' ''a.mojo''
        (start ex_fs))) \<noteq> []
   \<and> ext_of ''b.txt'' \<notin> set (include_extensions ex_settings)
   \<and> file_step ex_env (ex_args True False) ex_settings [alias_rule] ''/r/src'' ''b.txt''
        (start ex_fs) = (start ex_fs, None)
   \<and> ext_of ''.mojo'' = []"
proof -
  have a: "ext_of ''a.mojo'' \<in> set (include_extensions ex_settings)"
    and b: "ext_of ''b.txt'' \<notin> set (include_extensions ex_settings)"
    by (simp_all add: ext_of_def path_suffix_def rfind_def lstrip_def ex_settings_def)
  from extension_filter [of "''a.mojo''" ex_settings ex_env "ex_args True False" "[alias_rule]"
      "''/r/src''" "start ex_fs"] a
  have "trace (fst (file_step ex_env (ex_args True False) ex_settings [alias_rule] ''/r/src'' ''a.mojo''
        (start ex_fs))) \<noteq> []"
    by auto
  moreover from extension_filter [of "''b.txt''" ex_settings ex_env "ex_args True False" "[alias_rule]"
      "''/r/src''" "start ex_fs"] b
  have "file_step ex_env (ex_args True False) ex_settings [alias_rule] ''/r/src'' ''b.txt''
        (start ex_fs) = (start ex_fs, None)"
    by blast
  moreover from extension_filter [of "''.mojo''"]
  have "ext_of ''.mojo'' = []"
    by auto
  ultimately show ?thesis
    using a b by blast
qed

subsection \<open>C9: a text without occurrences\<close>

text \<open>
  Claim C9: when a text holds no occurrence of the search string of any rule, the rule
  applier returns the text as it is, and the counts hold a zero for every rule name and
  nothing else.
\<close>

theorem clean_text_is_fixed:
  assumes "\<forall>r \<in> set rules. \<not> sublist (search r) text"
  shows "fst (apply_rules rules text) = text
    \<and> (\<forall>n \<in> name ` set rules. dict_get (snd (apply_rules rules text)) n = Some 0)
    \<and> fst ` set (snd (apply_rules rules text)) = name ` set rules"
proof -
  have a: "rule_loop rules (text, []) = (text, snd (rule_loop rules (text, [])))"
    and b: "\<forall>c \<in> snd ` set (snd (rule_loop rules (text, []))). c = 0"
    using counts_zero_rule_loop [of "rules" "text" "[]"] assms by simp_all
  have k: "fst ` set (snd (rule_loop rules (text, []))) = name ` set rules"
    by (simp add: keys_rule_loop)
  have "dict_get (snd (rule_loop rules (text, []))) n = Some 0" if "n \<in> name ` set rules" for n
  proof -
    from that k obtain c where "(n, c) \<in> set (snd (rule_loop rules (text, [])))"
      by force
    moreover have "distinct (map fst (snd (rule_loop rules (text, []))))"
      by (simp add: distinct_rule_loop)
    ultimately have "dict_get (snd (rule_loop rules (text, []))) n = Some c"
      by (simp add: dict_get_def)
    moreover have "c = 0"
      using b \<open>(n, c) \<in> set (snd (rule_loop rules (text, [])))\<close> by force
    ultimately show ?thesis by simp
  qed
  with a k show ?thesis
    by (simp add: apply_rules_def) (metis fst_conv)
qed

theorem clean_text_is_fixed_witness:
  "\<not> sublist (search alias_rule) ''comptime Foo''
   \<and> apply_rules [alias_rule] ''comptime Foo'' = (''comptime Foo'', [(''x'', 0)])"
proof -
  have h: "\<not> sublist (search alias_rule) ''comptime Foo''"
    by (simp add: alias_rule_def sublist_Cons_right)
  then have "\<forall>r \<in> set [alias_rule]. \<not> sublist (search r) ''comptime Foo''"
    by simp
  from clean_text_is_fixed [OF this] h show ?thesis
    by (simp add: apply_rules_def rule_step_def alias_rule_def str_count_def)
qed

subsection \<open>C10: rules that share a name\<close>

text \<open>
  Claim C10: let \<open>r\<close> be the last rule of its name in the list. The counts returned for a
  text hold one entry per name, and the entry for the name of \<open>r\<close> is the count of \<open>r\<close>
  alone, whatever the rules of the same name before it counted; the returned text is
  still the result of the replacements of all rules. Adding these counts to totals that
  have every rule name raises nothing and adds the count of \<open>r\<close> to the total of its name.
\<close>

theorem last_same_named_rule_wins:
  assumes "rules = rs1 @ r # rs2" and "name r \<notin> name ` set rs2"
  shows "fst (apply_rules rules text) = text_after rules text
    \<and> dict_get (snd (apply_rules rules text)) (name r) =
        Some (str_count (text_after rs1 text) (search r))
    \<and> distinct (map fst (snd (apply_rules rules text)))
    \<and> (\<forall>tot. name ` set rules \<subseteq> fst ` set tot \<longrightarrow>
         (\<exists>tot'. add_counts (snd (apply_rules rules text)) tot = (tot', None) \<and>
            dict_get tot' (name r) =
              Some (count_in tot (name r) + str_count (text_after rs1 text) (search r))))"
proof (intro conjI allI impI)
  show "fst (apply_rules rules text) = text_after rules text"
    by (simp add: apply_rules_def fst_rule_loop)
  show g: "dict_get (snd (apply_rules rules text)) (name r) =
        Some (str_count (text_after rs1 text) (search r))"
    using assms by (simp add: apply_rules_def rule_loop_last_wins)
  show d: "distinct (map fst (snd (apply_rules rules text)))"
    by (simp add: apply_rules_def distinct_rule_loop)
  fix tot :: dict
  assume sub: "name ` set rules \<subseteq> fst ` set tot"
  have "fst ` set (snd (apply_rules rules text)) = name ` set rules"
    by (simp add: apply_rules_def keys_rule_loop)
  with sub have "fst ` set (snd (apply_rules rules text)) \<subseteq> fst ` set tot"
    by simp
  from add_counts_ok [OF d this] obtain tot' where
    a: "add_counts (snd (apply_rules rules text)) tot = (tot', None)"
    and v: "\<forall>n. dict_get tot' n =
         (case dict_get tot n of None \<Rightarrow> None
          | Some t \<Rightarrow> Some (t + count_in (snd (apply_rules rules text)) n))"
    by blast
  from sub assms(1) have "name r \<in> fst ` set tot"
    by auto
  then obtain t where t: "dict_get tot (name r) = Some t"
    using dict_get_None_iff [of tot "name r"] by auto
  from v t g have "dict_get tot' (name r) =
      Some (count_in tot (name r) + str_count (text_after rs1 text) (search r))"
    by (simp add: count_in_def)
  with a show "\<exists>tot'. add_counts (snd (apply_rules rules text)) tot = (tot', None) \<and>
            dict_get tot' (name r) =
              Some (count_in tot (name r) + str_count (text_after rs1 text) (search r))"
    by blast
qed

theorem last_same_named_rule_wins_witness:
  "x_twice = [hd x_twice] @ last x_twice # []
   \<and> name (hd x_twice) = name (last x_twice)
   \<and> str_count ''aab'' (search (hd x_twice)) = 2
   \<and> apply_rules x_twice ''aab'' = (''bbb'', [(''x'', 0)])
   \<and> dict_get (snd (apply_rules x_twice ''aab'')) (name (last x_twice)) =
        Some (str_count ''bbb'' (search (last x_twice)))
   \<and> name ` set x_twice \<subseteq> fst ` set [(''x'', 5::nat)]
   \<and> (\<exists>tot'. add_counts (snd (apply_rules x_twice ''aab'')) [(''x'', 5)] = (tot', None)
          \<and> dict_get tot' ''x'' = Some 5)"
proof -
  have a: "x_twice = [hd x_twice] @ last x_twice # []"
    and b: "name (last x_twice) \<notin> name ` set []"
    and c: "name ` set x_twice \<subseteq> fst ` set [(''x'', 5::nat)]"
    by (simp_all add: x_twice_def)
  have e: "apply_rules x_twice ''aab'' = (''bbb'', [(''x'', 0)])"
    by (simp add: x_twice_def apply_rules_def rule_step_def str_count_def str_replace_def)
  have t: "text_after [hd x_twice] ''aab'' = ''bbb''"
    by (simp add: x_twice_def str_replace_def)
  have z: "str_count ''bbb'' (search (last x_twice)) = 0" and n: "name (last x_twice) = ''x''"
    and k: "count_in [(''x'', 5)] ''x'' = 5"
    by (simp_all add: x_twice_def str_count_def count_in_def dict_get_def)
  note th = last_same_named_rule_wins [OF a b, of "''aab''"]
  from th t have g: "dict_get (snd (apply_rules x_twice ''aab'')) (name (last x_twice)) =
        Some (str_count ''bbb'' (search (last x_twice)))"
    by simp
  from th c obtain tot' where
    "add_counts (snd (apply_rules x_twice ''aab'')) [(''x'', 5)] = (tot', None)"
    "dict_get tot' (name (last x_twice)) =
       Some (count_in [(''x'', 5)] (name (last x_twice)) +
             str_count (text_after [hd x_twice] ''aab'') (search (last x_twice)))"
    by blast
  then have "\<exists>tot'. add_counts (snd (apply_rules x_twice ''aab'')) [(''x'', 5)] = (tot', None)
          \<and> dict_get tot' ''x'' = Some 5"
    using t z n k by auto
  with a c e g show ?thesis
    by (simp add: x_twice_def str_count_def)
qed

end
